theory Spec2Isabelle
  imports Complex_Main
begin

section \<open>Differential evolution (DE/rand/1/bin): a shallow embedding of \<open>main.ipynb\<close>\<close>

text \<open>
  The notebook's optimisers are embedded as HOL functions. Three things that Python leaves
  implicit are written out:
  \<^item> the process-wide random generator of numpy is an explicit argument and result: an
    infinite sequence of raw outputs, consumed from the front;
  \<^item> an exception is a value \<open>Inl e\<close> of a sum type, and a computation that may spin
    forever (the rejection loops of \<open>pick_rand_idx\<close>) lives in \<open>option\<close>, where
    \<open>None\<close> means that it does not return;
  \<^item> numpy arrays are objects in a store: the variable \<open>x\<close> of
    \<open>differential_evolution\<close> holds a reference, and \<open>x = x_g\<close> copies the
    reference, not the rows.
  Floating-point numbers are idealised as reals, except in \<open>init_population_f64\<close>,
  where the binary64 rounding of each arithmetic operation is written out.
\<close>

subsection \<open>Exceptions\<close>

datatype error =
    ValueError
  | IndexError
  | TypeError
  | Exception string
  | ObjectiveException int
    \<comment> \<open>\<open>Exception(f"Objective function must be able to handle {d} dimensional vectors")\<close>\<close>

type_synonym vector = "real list"
type_synonym population = "vector list"

subsection \<open>The random generator and the numpy primitives used by the notebook\<close>

text \<open>
  numpy is not part of the repository; its primitives are modelled from their documented
  contracts. \<open>randint low high\<close> raises \<open>ValueError\<close> when \<open>low >= high\<close> and
  otherwise yields an integer of \<open>[low, high)\<close>; \<open>random_sample\<close> yields a real of
  \<open>[0, 1)\<close> with 53 bits of resolution.
\<close>

type_synonym rng = "nat \<Rightarrow> nat"

definition rng_drop :: "nat \<Rightarrow> rng \<Rightarrow> rng" where
  "rng_drop n g = (\<lambda>m. g (n + m))"

definition rng_of :: "nat list \<Rightarrow> rng" where
  "rng_of xs = (\<lambda>n. if n < length xs then xs ! n else 0)"

definition randint :: "int \<Rightarrow> int \<Rightarrow> rng \<Rightarrow> error + int \<times> rng" where
  "randint low high g =
     (if high \<le> low then Inl ValueError
      else Inr (low + int (g 0) mod (high - low), rng_drop 1 g))"

definition random_sample :: "rng \<Rightarrow> real \<times> rng" where
  "random_sample g = (real (g 0 mod 2 ^ 53) / 2 ^ 53, rng_drop 1 g)"

fun samples :: "nat \<Rightarrow> rng \<Rightarrow> vector \<times> rng" where
  "samples 0 g = ([], g)"
| "samples (Suc n) g =
     (case random_sample g of (r, g1) \<Rightarrow>
        (case samples n g1 of (rs, g2) \<Rightarrow> (r # rs, g2)))"

fun sample_rows :: "nat \<Rightarrow> nat \<Rightarrow> rng \<Rightarrow> population \<times> rng" where
  "sample_rows 0 d g = ([], g)"
| "sample_rows (Suc n) d g =
     (case samples d g of (row, g1) \<Rightarrow>
        (case sample_rows n d g1 of (rows, g2) \<Rightarrow> (row # rows, g2)))"

text \<open>\<open>np.random.random(d)\<close>: \<open>d\<close> samples; a negative size is a \<open>ValueError\<close>.\<close>

definition np_random :: "int \<Rightarrow> rng \<Rightarrow> error + vector \<times> rng" where
  "np_random d g = (if d < 0 then Inl ValueError else Inr (samples (nat d) g))"

text \<open>\<open>np.random.rand(NP, d)\<close>: an \<open>NP \<times> d\<close> array of samples, filled row by row.\<close>

definition np_rand :: "int \<Rightarrow> int \<Rightarrow> rng \<Rightarrow> error + population \<times> rng" where
  "np_rand NP d g =
     (if NP < 0 \<or> d < 0 then Inl ValueError else Inr (sample_rows (nat NP) (nat d) g))"

text \<open>\<open>np.zeros((NP, d))\<close>, called only after \<open>np.random.rand(NP, d)\<close> has succeeded.\<close>

definition zeros :: "int \<Rightarrow> int \<Rightarrow> population" where
  "zeros NP d = replicate (nat NP) (replicate (nat d) 0)"

text \<open>Indexing \<open>xs[i]\<close> with a Python integer: a negative index counts from the end.\<close>

definition py_get :: "'a list \<Rightarrow> int \<Rightarrow> error + 'a" where
  "py_get xs i =
     (if 0 \<le> i \<and> i < int (length xs) then Inr (xs ! nat i)
      else if i < 0 \<and> - int (length xs) \<le> i then Inr (xs ! nat (int (length xs) + i))
      else Inl IndexError)"

text \<open>\<open>np.argmin\<close>: the index of the first occurrence of the minimum; empty input raises.\<close>

fun argmin_scan :: "real list \<Rightarrow> nat \<Rightarrow> nat \<Rightarrow> real \<Rightarrow> nat" where
  "argmin_scan [] j best_j best = best_j"
| "argmin_scan (y # ys) j best_j best =
     (if y < best then argmin_scan ys (Suc j) j y else argmin_scan ys (Suc j) best_j best)"

definition argmin :: "real list \<Rightarrow> error + nat" where
  "argmin ys = (case ys of [] \<Rightarrow> Inl ValueError | y # ys' \<Rightarrow> Inr (argmin_scan ys' 1 0 y))"

subsection \<open>Sequencing computations that may raise or not return\<close>

type_synonym 'a result = "(error + 'a) option"

definition ok :: "'a \<Rightarrow> 'a result" where
  "ok v = Some (Inr v)"

definition bind_res :: "'a result \<Rightarrow> ('a \<Rightarrow> 'b result) \<Rightarrow> 'b result" where
  "bind_res m k = (case m of None \<Rightarrow> None | Some (Inl e) \<Rightarrow> Some (Inl e) | Some (Inr v) \<Rightarrow> k v)"

subsection \<open>\<open>init_population\<close>\<close>

definition init_population :: "int \<Rightarrow> int \<Rightarrow> real \<Rightarrow> real \<Rightarrow> rng \<Rightarrow> error + population \<times> rng" where
  "init_population NP d lb ub g =
     (case np_rand NP d g of
        Inl e \<Rightarrow> Inl e
      | Inr (m, g') \<Rightarrow> Inr (map (map (\<lambda>r. r * (ub - lb) + lb)) m, g'))"

text \<open>
  \<open>init_population(NP, d, *obj_bounds)\<close>: the bounds are unpacked into the two
  optional arguments \<open>lb = 0\<close> and \<open>ub = 1\<close>; more than two are a \<open>TypeError\<close>.
\<close>

definition init_population_star :: "int \<Rightarrow> int \<Rightarrow> real list \<Rightarrow> rng \<Rightarrow> error + population \<times> rng" where
  "init_population_star NP d obj_bounds g =
     (case obj_bounds of
        [] \<Rightarrow> init_population NP d 0 1 g
      | [lb] \<Rightarrow> init_population NP d lb 1 g
      | [lb, ub] \<Rightarrow> init_population NP d lb ub g
      | _ \<Rightarrow> Inl TypeError)"

subsection \<open>\<open>init_population\<close> in binary64 arithmetic\<close>

text \<open>
  numpy computes \<open>np.random.rand(NP, d) * (ub - lb) + lb\<close> on binary64 numbers: each
  of the three operations returns the representable number nearest to the exact result,
  a tie going to the one with an even significand. \<open>rne\<close> rounds a real to the
  nearest integer in this way; \<open>f64_ulp x\<close> is the spacing of the binary64 numbers
  around \<open>x\<close> (52 fraction bits, least normal exponent \<open>-1022\<close>); \<open>f64 x\<close> is
  \<open>x\<close> rounded to binary64. Overflow to infinity is not modelled. The samples of
  \<open>np.random.rand\<close>, multiples of \<open>1 / 2 ^ 53\<close> in \<open>[0, 1)\<close>, are binary64 numbers
  already, and so are the arguments \<open>lb\<close> and \<open>ub\<close> of a call.
\<close>

definition rne :: "real \<Rightarrow> int" where
  "rne q =
     (if q - of_int \<lfloor>q\<rfloor> < 1 / 2 then \<lfloor>q\<rfloor>
      else if 1 / 2 < q - of_int \<lfloor>q\<rfloor> then \<lfloor>q\<rfloor> + 1
      else if even \<lfloor>q\<rfloor> then \<lfloor>q\<rfloor> else \<lfloor>q\<rfloor> + 1)"

definition f64_ulp :: "real \<Rightarrow> real" where
  "f64_ulp x = 2 powi (max \<lfloor>log 2 \<bar>x\<bar>\<rfloor> (- 1022) - 52)"

definition f64 :: "real \<Rightarrow> real" where
  "f64 x = (if x = 0 then 0 else of_int (rne (x / f64_ulp x)) * f64_ulp x)"

definition init_population_f64 ::
  "int \<Rightarrow> int \<Rightarrow> real \<Rightarrow> real \<Rightarrow> rng \<Rightarrow> error + population \<times> rng" where
  "init_population_f64 NP d lb ub g =
     (case np_rand NP d g of
        Inl e \<Rightarrow> Inl e
      | Inr (m, g') \<Rightarrow> Inr (map (map (\<lambda>r. f64 (f64 (r * f64 (ub - lb)) + lb))) m, g'))"

subsection \<open>\<open>check_obj_func\<close> and \<open>check_param\<close>\<close>




subsection \<open>\<open>pick_rand_idx\<close>\<close>

text \<open>
  The three \<open>while\<close> loops of \<open>pick_rand_idx\<close> have the same body,
  \<open>r = np.random.randint(0, NP)\<close>, and differ in their condition only: the loop is
  defined once, with the condition as an argument. Nothing bounds the number of
  iterations, so the loop is a partial function.
\<close>

partial_function (option) resample ::
  "(int \<Rightarrow> bool) \<Rightarrow> int \<Rightarrow> int \<Rightarrow> rng \<Rightarrow> (error + int \<times> rng) option" where
  "resample collides NP r g =
     (if collides r
      then (case randint 0 NP g of
              Inl e \<Rightarrow> Some (Inl e)
            | Inr (r', g') \<Rightarrow> resample collides NP r' g')
      else Some (Inr (r, g)))"

text \<open>\<open>np.random.randint(0, NP, 3)\<close>: three draws, or \<open>ValueError\<close>.\<close>

definition randint3 :: "int \<Rightarrow> int \<Rightarrow> rng \<Rightarrow> error + (int \<times> int \<times> int) \<times> rng" where
  "randint3 low high g =
     (if high \<le> low then Inl ValueError
      else Inr ((low + int (g 0) mod (high - low),
                 low + int (g 1) mod (high - low),
                 low + int (g 2) mod (high - low)), rng_drop 3 g))"

definition pick_rand_idx :: "int \<Rightarrow> int \<Rightarrow> rng \<Rightarrow> ((int \<times> int \<times> int) \<times> rng) result" where
  "pick_rand_idx i NP g =
     bind_res (Some (randint3 0 NP g)) (\<lambda>((a, b, c), g0).
     bind_res (resample (\<lambda>r. r = i) NP a g0) (\<lambda>(r1, g1).
     bind_res (resample (\<lambda>r. r = r1 \<or> r = i) NP b g1) (\<lambda>(r2, g2).
     bind_res (resample (\<lambda>r. r = r2 \<or> r = r1 \<or> r = i) NP c g2) (\<lambda>(r3, g3).
     ok ((r1, r2, r3), g3)))))"

subsection \<open>\<open>mutate_at_pos\<close>\<close>

definition at2 :: "population \<Rightarrow> int \<Rightarrow> int \<Rightarrow> error + real" where
  "at2 x r k = (case py_get x r of Inl e \<Rightarrow> Inl e | Inr row \<Rightarrow> py_get row k)"

definition mutate_at_pos :: "population \<Rightarrow> real \<Rightarrow> int \<Rightarrow> int \<Rightarrow> rng \<Rightarrow> (real \<times> rng) result" where
  "mutate_at_pos x F i k g =
     bind_res (pick_rand_idx i (int (length x)) g) (\<lambda>((r1, r2, r3), g').
     bind_res (Some (at2 x r1 k)) (\<lambda>a.
     bind_res (Some (at2 x r2 k)) (\<lambda>b.
     bind_res (Some (at2 x r3 k)) (\<lambda>c.
     ok (a + F * (b - c), g')))))"

subsection \<open>\<open>differential_evolution\<close>\<close>

text \<open>
  The function allocates three arrays: the initial population (\<open>X0\<close>), the trial
  vectors \<open>u\<close> (\<open>U\<close>) and \<open>x_g\<close> (\<open>XG\<close>). The variables \<open>u\<close> and \<open>x_g\<close> are
  never rebound; \<open>x\<close> is, by \<open>x = x_g\<close>, so the state records which array \<open>x\<close>
  refers to. Row and element indices inside the loops come from \<open>range(NP)\<close> and
  \<open>range(d)\<close> and the arrays have shape \<open>(NP, d)\<close>.
\<close>

datatype ref = X0 | U | XG

record de_state =
  arrays :: "ref \<Rightarrow> population"
  x_ref :: ref
  rnd :: rng

definition set_elem :: "(ref \<Rightarrow> population) \<Rightarrow> ref \<Rightarrow> nat \<Rightarrow> nat \<Rightarrow> real \<Rightarrow> (ref \<Rightarrow> population)" where
  "set_elem h a i k v = h(a := (h a)[i := (h a ! i)[k := v]])"

definition set_row :: "(ref \<Rightarrow> population) \<Rightarrow> ref \<Rightarrow> nat \<Rightarrow> vector \<Rightarrow> (ref \<Rightarrow> population)" where
  "set_row h a i row = h(a := (h a)[i := row])"

text \<open>The loop \<open>for k in range(d)\<close> that fills \<open>u[i]\<close>.\<close>

fun crossover_loop ::
  "real \<Rightarrow> real \<Rightarrow> nat \<Rightarrow> int \<Rightarrow> vector \<Rightarrow> nat list \<Rightarrow> de_state \<Rightarrow> de_state result" where
  "crossover_loop CR F i rnbr randb [] s = ok s"
| "crossover_loop CR F i rnbr randb (k # ks) s =
     (if int k = rnbr \<or> randb ! k < CR
      then bind_res (mutate_at_pos (arrays s (x_ref s)) F (int i) (int k) (rnd s)) (\<lambda>(v, g').
             crossover_loop CR F i rnbr randb ks
               (s\<lparr>arrays := set_elem (arrays s) U i k v, rnd := g'\<rparr>))
      else crossover_loop CR F i rnbr randb ks
             (s\<lparr>arrays := set_elem (arrays s) U i k (arrays s (x_ref s) ! i ! k)\<rparr>))"

text \<open>Selection: \<open>if f(u[i]) < f(x[i]): x_g[i] = u[i]\<close>, \<open>else: x_g[i] = x[i]\<close>.\<close>

definition select :: "(vector \<Rightarrow> real) \<Rightarrow> nat \<Rightarrow> de_state \<Rightarrow> de_state" where
  "select f i s =
     (if f (arrays s U ! i) < f (arrays s (x_ref s) ! i)
      then s\<lparr>arrays := set_row (arrays s) XG i (arrays s U ! i)\<rparr>
      else s\<lparr>arrays := set_row (arrays s) XG i (arrays s (x_ref s) ! i)\<rparr>)"

text \<open>The loop \<open>for i in range(NP)\<close>.\<close>

fun member_loop ::
  "(vector \<Rightarrow> real) \<Rightarrow> real \<Rightarrow> real \<Rightarrow> int \<Rightarrow> nat list \<Rightarrow> de_state \<Rightarrow> de_state result" where
  "member_loop f CR F d [] s = ok s"
| "member_loop f CR F d (i # is) s =
     bind_res (Some (randint 0 d (rnd s))) (\<lambda>(rnbr, g1).
     bind_res (Some (np_random d g1)) (\<lambda>(randb, g2).
     bind_res (crossover_loop CR F i rnbr randb [0..<nat d] (s\<lparr>rnd := g2\<rparr>)) (\<lambda>s'.
     member_loop f CR F d is (select f i s'))))"

text \<open>
  The part of the body of \<open>for i in range(NP)\<close> that builds the trial vector \<open>u[i]\<close>:
  the draws \<open>rnbr = np.random.randint(d)\<close> and \<open>randb = np.random.random(d)\<close>,
  then the loop over the dimensions. \<open>member_loop\<close> is this step followed by the
  selection (lemma \<open>member_loop_trial_step\<close>).
\<close>

definition trial_step :: "real \<Rightarrow> real \<Rightarrow> int \<Rightarrow> nat \<Rightarrow> de_state \<Rightarrow> de_state result" where
  "trial_step CR F d i s =
     bind_res (Some (randint 0 d (rnd s))) (\<lambda>(rnbr, g1).
     bind_res (Some (np_random d g1)) (\<lambda>(randb, g2).
     crossover_loop CR F i rnbr randb [0..<nat d] (s\<lparr>rnd := g2\<rparr>)))"

text \<open>One pass of the \<open>while\<close> body: the sweep over the members, then \<open>x = x_g\<close>.\<close>

definition generation ::
  "(vector \<Rightarrow> real) \<Rightarrow> real \<Rightarrow> real \<Rightarrow> int \<Rightarrow> int \<Rightarrow> de_state \<Rightarrow> de_state result" where
  "generation f CR F NP d s =
     bind_res (member_loop f CR F d [0..<nat NP] s) (\<lambda>s'. ok (s'\<lparr>x_ref := XG\<rparr>))"

function gen_loop ::
  "(vector \<Rightarrow> real) \<Rightarrow> real \<Rightarrow> real \<Rightarrow> int \<Rightarrow> int \<Rightarrow> int \<Rightarrow> int \<Rightarrow> de_state \<Rightarrow> de_state result" where
  "gen_loop f CR F NP d max_gen n_gen s =
     (if n_gen < max_gen
      then bind_res (generation f CR F NP d s) (\<lambda>s'. gen_loop f CR F NP d max_gen (n_gen + 1) s')
      else ok s)"
  by pat_completeness auto
termination
  by (relation "measure (\<lambda>(f, CR, F, NP, d, max_gen, n_gen, s). nat (max_gen - n_gen))") auto

definition de_init :: "int \<Rightarrow> int \<Rightarrow> population \<Rightarrow> rng \<Rightarrow> de_state" where
  "de_init NP d x0 g =
     \<lparr>arrays = (\<lambda>r. case r of X0 \<Rightarrow> x0 | U \<Rightarrow> zeros NP d | XG \<Rightarrow> zeros NP d),
      x_ref = X0, rnd = g\<rparr>"

definition best_member :: "(vector \<Rightarrow> real) \<Rightarrow> population \<Rightarrow> error + vector" where
  "best_member f pop =
     (case argmin (map f pop) of Inl e \<Rightarrow> Inl e | Inr idx_best \<Rightarrow> Inr (pop ! idx_best))"

definition differential_evolution ::
  "int \<Rightarrow> (vector \<Rightarrow> real) \<Rightarrow> real \<Rightarrow> real \<Rightarrow> int \<Rightarrow> int \<Rightarrow> real list \<Rightarrow> rng \<Rightarrow> vector result" where
  "differential_evolution NP f CR F max_gen d obj_bounds g =
     bind_res (Some (init_population_star NP d obj_bounds g)) (\<lambda>(x0, g').
     bind_res (gen_loop f CR F NP d max_gen 0 (de_init NP d x0 g')) (\<lambda>s.
     Some (best_member f (arrays s (x_ref s)))))"

subsection \<open>\<open>rand_search\<close>\<close>

text \<open>The loop \<open>for v in x\<close> with the running pair \<open>(best_sol, best_score)\<close>.\<close>

fun rs_scan :: "(vector \<Rightarrow> real) \<Rightarrow> population \<Rightarrow> vector \<times> real \<Rightarrow> vector \<times> real" where
  "rs_scan f [] best = best"
| "rs_scan f (v # vs) (best_sol, best_score) =
     (if f v < best_score then rs_scan f vs (v, f v) else rs_scan f vs (best_sol, best_score))"

function rs_loop ::
  "int \<Rightarrow> (vector \<Rightarrow> real) \<Rightarrow> int \<Rightarrow> int \<Rightarrow> real list \<Rightarrow> int \<Rightarrow> vector \<times> real \<Rightarrow> rng
     \<Rightarrow> error + vector" where
  "rs_loop NP f max_gen d obj_bounds n_gen best g =
     (if n_gen < max_gen
      then (case init_population_star NP d obj_bounds g of
              Inl e \<Rightarrow> Inl e
            | Inr (x, g') \<Rightarrow> rs_loop NP f max_gen d obj_bounds (n_gen + 1) (rs_scan f x best) g')
      else Inr (fst best))"
  by pat_completeness auto
termination
  by (relation "measure (\<lambda>(NP, f, max_gen, d, obj_bounds, n_gen, best, g). nat (max_gen - n_gen))")
    auto

definition rand_search ::
  "int \<Rightarrow> (vector \<Rightarrow> real) \<Rightarrow> int \<Rightarrow> int \<Rightarrow> real list \<Rightarrow> rng \<Rightarrow> error + vector" where
  "rand_search NP f max_gen d obj_bounds g =
     (case init_population_star NP d obj_bounds g of
        Inl e \<Rightarrow> Inl e
      | Inr (x, g') \<Rightarrow>
          (case py_get x 0 of
             Inl e \<Rightarrow> Inl e
           | Inr x0 \<Rightarrow> rs_loop NP f max_gen d obj_bounds 0 (x0, f x0) g'))"

subsection \<open>A benchmark function of the notebook: \<open>rosenbrock\<close>\<close>


subsection \<open>Assumption on the generator used by the termination results\<close>

text \<open>
  Rejection sampling returns only if an admissible index is eventually drawn. A generator
  is \<open>fair\<close> for \<open>NP\<close> when every index of \<open>[0, NP)\<close> keeps occurring among the
  draws of \<open>randint(0, NP)\<close> taken from it, as uniform draws do.
\<close>

definition fair :: "int \<Rightarrow> rng \<Rightarrow> bool" where
  "fair NP g = (\<forall>n v. 0 \<le> v \<and> v < NP \<longrightarrow> (\<exists>m. int (g (n + m)) mod NP = v))"

text \<open>
  A generator that repeats a finite list of raw outputs for ever; it is fair as soon as
  every index occurs in the list.
\<close>

definition rng_cycle :: "nat list \<Rightarrow> rng" where
  "rng_cycle xs = (\<lambda>n. if xs = [] then 0 else xs ! (n mod length xs))"

subsection \<open>Auxiliary notions used to state the properties of \<open>rand_search\<close>\<close>

text \<open>
  The populations that \<open>n\<close> successive calls of \<open>init_population(NP, d, *obj_bounds)\<close>
  draw from a generator.
\<close>

fun draw_pops :: "nat \<Rightarrow> int \<Rightarrow> int \<Rightarrow> real list \<Rightarrow> rng \<Rightarrow> population list" where
  "draw_pops 0 NP d obj_bounds g = []"
| "draw_pops (Suc n) NP d obj_bounds g =
     (case init_population_star NP d obj_bounds g of
        Inl e \<Rightarrow> []
      | Inr (x, g') \<Rightarrow> x # draw_pops n NP d obj_bounds g')"

subsection \<open>Auxiliary notions used to state the properties of \<open>differential_evolution\<close>\<close>

text \<open>A state written out by its three arrays, the array \<open>x\<close> refers to, and the generator.\<close>

definition de_state_of :: "population \<Rightarrow> population \<Rightarrow> population \<Rightarrow> ref \<Rightarrow> rng \<Rightarrow> de_state" where
  "de_state_of a b c r g =
     \<lparr>arrays = (\<lambda>q. case q of X0 \<Rightarrow> a | U \<Rightarrow> b | XG \<Rightarrow> c), x_ref = r, rnd = g\<rparr>"

text \<open>
  The arrays of a run have shape \<open>(NP, d)\<close>, and \<open>x\<close> refers to the initial
  population or to \<open>x_g\<close>, never to \<open>u\<close>.
\<close>

definition shaped :: "int \<Rightarrow> int \<Rightarrow> population \<Rightarrow> bool" where
  "shaped NP d a \<longleftrightarrow> length a = nat NP \<and> (\<forall>row \<in> set a. length row = nat d)"

definition de_wf :: "int \<Rightarrow> int \<Rightarrow> de_state \<Rightarrow> bool" where
  "de_wf NP d s \<longleftrightarrow>
     x_ref s \<noteq> U \<and> shaped NP d (arrays s X0) \<and> shaped NP d (arrays s U) \<and> shaped NP d (arrays s XG)"

text \<open>A step that may raise or not return, run \<open>n\<close> times in sequence.\<close>

fun iterate_res :: "nat \<Rightarrow> ('a \<Rightarrow> 'a result) \<Rightarrow> 'a \<Rightarrow> 'a result" where
  "iterate_res 0 step s = ok s"
| "iterate_res (Suc n) step s = bind_res (step s) (iterate_res n step)"

subsection \<open>The synchronous generation of the specification, for comparison\<close>

text \<open>
  The specification (sections 3, 4.6 and 5) has every trial vector of a generation built
  from the completed previous generation: the array read during a sweep is not the one
  the sweep writes. \<open>generation_spec\<close> follows these words: after the sweep the rows of
  \<open>x_g\<close> are copied into the array \<open>x\<close> refers to, and \<open>x\<close> keeps referring to it.
  It differs from \<open>generation\<close> in this last step only.
\<close>

definition generation_spec ::
  "(vector \<Rightarrow> real) \<Rightarrow> real \<Rightarrow> real \<Rightarrow> int \<Rightarrow> int \<Rightarrow> de_state \<Rightarrow> de_state result" where
  "generation_spec f CR F NP d s =
     bind_res (member_loop f CR F d [0..<nat NP] s) (\<lambda>s'.
       ok (s'\<lparr>arrays := (arrays s')(x_ref s' := arrays s' XG)\<rparr>))"

definition differential_evolution_spec ::
  "int \<Rightarrow> (vector \<Rightarrow> real) \<Rightarrow> real \<Rightarrow> real \<Rightarrow> int \<Rightarrow> int \<Rightarrow> real list \<Rightarrow> rng \<Rightarrow> vector result" where
  "differential_evolution_spec NP f CR F max_gen d obj_bounds g =
     bind_res (Some (init_population_star NP d obj_bounds g)) (\<lambda>(x0, g').
     bind_res (iterate_res (nat max_gen) (generation_spec f CR F NP d) (de_init NP d x0 g')) (\<lambda>s.
     Some (best_member f (arrays s (x_ref s)))))"

section \<open>Properties\<close>

subsection \<open>The generator\<close>

lemma rng_drop_0 [simp]: "rng_drop 0 g = g"
  by (simp add: rng_drop_def)

lemma rng_drop_drop [simp]: "rng_drop n (rng_drop m g) = rng_drop (m + n) g"
  by (simp add: rng_drop_def add.assoc)

lemma rng_drop_apply: "rng_drop n g m = g (n + m)"
  by (simp add: rng_drop_def)

lemma rng_of_Nil [simp]: "rng_of [] n = 0"
  by (simp add: rng_of_def)

lemma rng_of_Cons_0 [simp]: "rng_of (a # xs) 0 = a"
  by (simp add: rng_of_def)

lemma rng_of_Cons_Suc [simp]: "rng_of (a # xs) (Suc n) = rng_of xs n"
  by (simp add: rng_of_def)

lemma rng_of_Cons_numeral [simp]: "rng_of (a # xs) (numeral v) = rng_of xs (pred_numeral v)"
  by (simp add: rng_of_def numeral_eq_Suc)

lemma rng_drop_rng_of [simp]: "rng_drop n (rng_of xs) = rng_of (drop n xs)"
  by (rule ext) (auto simp: rng_drop_def rng_of_def)

lemma resample_sound_aux:
  assumes "resample c NP r g = Some y"
  shows "\<forall>r' g'. y = Inr (r', g') \<longrightarrow>
        \<not> c r' \<and> (r' = r \<or> (0 \<le> r' \<and> r' < NP)) \<and> (\<exists>n. g' = rng_drop n g)"
proof (rule resample.raw_induct [where P = "\<lambda>c NP r g y. \<forall>r' g'. y = Inr (r', g') \<longrightarrow>
        \<not> c r' \<and> (r' = r \<or> (0 \<le> r' \<and> r' < NP)) \<and> (\<exists>n. g' = rng_drop n g)", OF _ assms])
  fix rs c NP r g y
  assume IH: "\<And>c NP r g y. rs c NP r g = Some y \<Longrightarrow> \<forall>r' g'. y = Inr (r', g') \<longrightarrow>
        \<not> c r' \<and> (r' = r \<or> (0 \<le> r' \<and> r' < NP)) \<and> (\<exists>n. g' = rng_drop n g)"
    and step: "(if c r then case randint 0 NP g of Inl e \<Rightarrow> Some (Inl e)
                 | Inr (r', g') \<Rightarrow> rs c NP r' g' else Some (Inr (r, g))) = Some y"
  show "\<forall>r' g'. y = Inr (r', g') \<longrightarrow>
        \<not> c r' \<and> (r' = r \<or> (0 \<le> r' \<and> r' < NP)) \<and> (\<exists>n. g' = rng_drop n g)"
  proof (cases "c r")
    case False
    with step have "y = Inr (r, g)" by simp
    with False show ?thesis by (metis rng_drop_0 sum.inject(2) prod.inject)
  next
    case True
    show ?thesis
    proof (cases "NP \<le> 0")
      case True
      with \<open>c r\<close> step show ?thesis by (auto simp: randint_def)
    next
      case False
      let ?r1 = "int (g 0) mod NP"
      from False True step have call: "rs c NP ?r1 (rng_drop 1 g) = Some y"
        by (simp add: randint_def)
      from False have "0 \<le> ?r1 \<and> ?r1 < NP" by simp
      with IH [OF call] show ?thesis by (auto simp del: One_nat_def)
    qed
  qed
qed

lemma resample_sound:
  "resample c NP r g = Some (Inr (r', g')) \<Longrightarrow>
     \<not> c r' \<and> (r' = r \<or> (0 \<le> r' \<and> r' < NP)) \<and> (\<exists>n. g' = rng_drop n g)"
  using resample_sound_aux by blast

lemma resample_never_aux:
  assumes "resample c NP r g = Some y"
  shows "\<not> ((\<forall>v. 0 \<le> v \<and> v < NP \<longrightarrow> c v) \<and> 0 < NP \<and> c r)"
proof (rule resample.raw_induct [where P = "\<lambda>c NP r g y.
         \<not> ((\<forall>v. 0 \<le> v \<and> v < NP \<longrightarrow> c v) \<and> 0 < NP \<and> c r)", OF _ assms])
  fix rs c NP r g y
  assume IH: "\<And>c NP r g y. rs c NP r g = Some y \<Longrightarrow>
                \<not> ((\<forall>v. 0 \<le> v \<and> v < NP \<longrightarrow> c v) \<and> 0 < NP \<and> c r)"
    and step: "(if c r then case randint 0 NP g of Inl e \<Rightarrow> Some (Inl e)
                 | Inr (r', g') \<Rightarrow> rs c NP r' g' else Some (Inr (r, g))) = Some y"
  show "\<not> ((\<forall>v. 0 \<le> v \<and> v < NP \<longrightarrow> c v) \<and> 0 < NP \<and> c r)"
  proof (rule notI, elim conjE)
    assume full: "\<forall>v. 0 \<le> v \<and> v < NP \<longrightarrow> c v" and pos: "0 < NP" and cr: "c r"
    let ?r1 = "int (g 0) mod NP"
    from step pos cr have call: "rs c NP ?r1 (rng_drop 1 g) = Some y"
      by (simp add: randint_def)
    from pos full have "c ?r1" by simp
    with IH [OF call] full pos show False by blast
  qed
qed

lemma resample_never:
  assumes "\<And>v. 0 \<le> v \<Longrightarrow> v < NP \<Longrightarrow> c v" and "0 < NP" and "c r"
  shows "resample c NP r g = None"
  using resample_never_aux [of c NP r g] assms by (cases "resample c NP r g") auto

lemma resample_spins_aux:
  assumes "resample c NP r g = Some y"
  shows "\<not> (0 < NP \<and> c r \<and> (\<forall>m. c (int (g m) mod NP)))"
proof (rule resample.raw_induct [where P = "\<lambda>c NP r g y.
         \<not> (0 < NP \<and> c r \<and> (\<forall>m. c (int (g m) mod NP)))", OF _ assms])
  fix rs c NP r g y
  assume IH: "\<And>c NP r g y. rs c NP r g = Some y \<Longrightarrow>
                \<not> (0 < NP \<and> c r \<and> (\<forall>m. c (int (g m) mod NP)))"
    and step: "(if c r then case randint 0 NP g of Inl e \<Rightarrow> Some (Inl e)
                 | Inr (r', g') \<Rightarrow> rs c NP r' g' else Some (Inr (r, g))) = Some y"
  show "\<not> (0 < NP \<and> c r \<and> (\<forall>m. c (int (g m) mod NP)))"
  proof (rule notI, elim conjE)
    assume pos: "0 < NP" and cr: "c r" and all: "\<forall>m. c (int (g m) mod NP)"
    from step pos cr have call: "rs c NP (int (g 0) mod NP) (rng_drop 1 g) = Some y"
      by (simp add: randint_def)
    from all have "\<forall>m. c (int (rng_drop 1 g m) mod NP)" by (simp add: rng_drop_def)
    with IH [OF call] pos all show False by blast
  qed
qed

lemma resample_spins:
  assumes "0 < NP" and "c r" and "\<forall>m. c (int (g m) mod NP)"
  shows "resample c NP r g = None"
  using resample_spins_aux [of c NP r g] assms by (cases "resample c NP r g") auto

lemma resample_no_error_aux:
  assumes "resample c NP r g = Some y"
  shows "\<forall>e. y = Inl e \<longrightarrow> NP \<le> 0"
proof (rule resample.raw_induct [where P = "\<lambda>c NP r g y. \<forall>e. y = Inl e \<longrightarrow> NP \<le> 0", OF _ assms])
  fix rs c NP r g y
  assume IH: "\<And>c NP r g y. rs c NP r g = Some y \<Longrightarrow> \<forall>e. y = Inl e \<longrightarrow> NP \<le> 0"
    and step: "(if c r then case randint 0 NP g of Inl e \<Rightarrow> Some (Inl e)
                 | Inr (r', g') \<Rightarrow> rs c NP r' g' else Some (Inr (r, g))) = Some y"
  show "\<forall>e. y = Inl e \<longrightarrow> NP \<le> 0"
  proof (cases "c r \<and> 0 < NP")
    case True
    with step have "rs c NP (int (g 0) mod NP) (rng_drop 1 g) = Some y"
      by (simp add: randint_def)
    from IH [OF this] show ?thesis .
  next
    case False
    with step show ?thesis by (auto simp: randint_def split: if_splits)
  qed
qed

lemma resample_no_error: "0 < NP \<Longrightarrow> resample c NP r g \<noteq> Some (Inl e)"
  using resample_no_error_aux [of c NP r g "Inl e"] by auto

lemma resample_returns:
  assumes pos: "0 < NP"
  shows "\<not> c (int (g m) mod NP) \<Longrightarrow>
     \<exists>r' n. resample c NP r g = Some (Inr (r', rng_drop n g)) \<and> \<not> c r'"
proof (induction m arbitrary: r g)
  case 0
  show ?case
  proof (cases "c r")
    case False
    then have "resample c NP r g = Some (Inr (r, rng_drop 0 g))"
      by (subst resample.simps) simp
    with False show ?thesis by blast
  next
    case True
    with pos 0 have "resample c NP r g = Some (Inr (int (g 0) mod NP, rng_drop 1 g))"
      by (subst resample.simps, simp add: randint_def, subst resample.simps, simp)
    with 0 show ?thesis by blast
  qed
next
  case (Suc m)
  show ?case
  proof (cases "c r")
    case False
    then have "resample c NP r g = Some (Inr (r, rng_drop 0 g))"
      by (subst resample.simps) simp
    with False show ?thesis by blast
  next
    case True
    from Suc.prems have "\<not> c (int (rng_drop 1 g m) mod NP)"
      by (simp add: rng_drop_apply)
    from Suc.IH [of "rng_drop 1 g" "int (g 0) mod NP", OF this] obtain r' n where
      "resample c NP (int (g 0) mod NP) (rng_drop 1 g) = Some (Inr (r', rng_drop n (rng_drop 1 g)))"
      "\<not> c r'" by blast
    with True pos have "resample c NP r g = Some (Inr (r', rng_drop (1 + n) g))"
      by (subst resample.simps) (simp add: randint_def)
    with \<open>\<not> c r'\<close> show ?thesis by blast
  qed
qed

subsection \<open>\<open>pick_rand_idx\<close>\<close>

lemma fair_drop: "fair NP g \<Longrightarrow> fair NP (rng_drop k g)"
  unfolding fair_def rng_drop_def
  by (metis add.assoc)

lemma fair_id: "0 < NP \<Longrightarrow> fair NP (\<lambda>n. n)"
  unfolding fair_def
proof (intro allI impI)
  fix n :: nat and v :: int
  assume pos: "0 < NP" and v: "0 \<le> v \<and> v < NP"
  from pos obtain k where k: "NP = int (Suc k)"
    by (metis nat_0_less_mult_iff nat_int not0_implies_Suc zero_less_nat_eq mult.right_neutral
        less_numeral_extra(1) int_nat_eq less_le)
  define m where "m = nat v + n * k"
  have "int (n + m) = v + int n * NP"
    using v by (simp add: m_def k algebra_simps)
  then have "int (n + m) mod NP = v" using v by simp
  then show "\<exists>m. int (n + m) mod NP = v" by blast
qed

lemma rng_cycle_0 [simp]: "rng_cycle (x # xs) 0 = x"
  by (simp add: rng_cycle_def)

lemma rng_cycle_Suc_0 [simp]: "xs \<noteq> [] \<Longrightarrow> rng_cycle xs (Suc 0) = xs ! (1 mod length xs)"
  by (simp add: rng_cycle_def)

lemma rng_cycle_numeral [simp]:
  "xs \<noteq> [] \<Longrightarrow> rng_cycle xs (numeral k) = xs ! (numeral k mod length xs)"
  by (simp add: rng_cycle_def)

lemma rng_drop_cycle [simp]:
  "rng_drop k (rng_cycle xs)
     = rng_cycle (drop (k mod length xs) xs @ take (k mod length xs) xs)"
proof (cases "xs = []")
  case True
  then show ?thesis by (simp add: rng_drop_def rng_cycle_def)
next
  case False
  then have "rotate k xs \<noteq> []" by simp
  have "rng_drop k (rng_cycle xs) j = rng_cycle (rotate k xs) j" for j
    using False \<open>rotate k xs \<noteq> []\<close>
    by (simp add: rng_drop_def rng_cycle_def nth_rotate mod_add_right_eq add.commute)
  then show ?thesis by (simp add: rotate_drop_take fun_eq_iff)
qed

lemma fair_cycle:
  assumes "\<forall>v. 0 \<le> v \<and> v < NP \<longrightarrow> (\<exists>j < length xs. int (xs ! j) mod NP = v)"
  shows "fair NP (rng_cycle xs)"
  unfolding fair_def
proof (intro allI impI)
  fix n :: nat and v :: int
  assume "0 \<le> v \<and> v < NP"
  with assms obtain j where j: "j < length xs" "int (xs ! j) mod NP = v" by blast
  then obtain l where l: "length xs = Suc l" by (cases "length xs") simp_all
  have "(n + (j + n * l)) mod length xs = j"
  proof -
    have "n + (j + n * l) = j + n * length xs" by (simp add: l)
    then have "(n + (j + n * l)) mod length xs = j mod length xs"
      by (simp only: mod_mult_self1)
    with j(1) show ?thesis by simp
  qed
  moreover from j(1) have "xs \<noteq> []" by auto
  ultimately have "int (rng_cycle xs (n + (j + n * l))) mod NP = v"
    using j(2) by (simp add: rng_cycle_def)
  then show "\<exists>m. int (rng_cycle xs (n + m)) mod NP = v" by blast
qed

lemma fair_cycle_examples:
  "fair 4 (rng_cycle [0, 0, 6755399441055744, 3, 2, 1])"
  "fair 4 (rng_cycle [1, 2, 3, 3, 1, 2, 0])"
  "fair 4 (rng_cycle [1, 0, 3, 2])"
proof -
  have a: "\<exists>j < length [0, 0, 6755399441055744, 3, 2, 1 :: nat].
             int ([0, 0, 6755399441055744, 3, 2, 1] ! j) mod 4 = v" if "0 \<le> v \<and> v < 4" for v :: int
  proof -
    from that consider "v = 0" | "v = 1" | "v = 2" | "v = 3" by arith
    then show ?thesis
    proof cases
      case 1 then show ?thesis by (intro exI [of _ 0]) simp
    next
      case 2 then show ?thesis by (intro exI [of _ 5]) simp
    next
      case 3 then show ?thesis by (intro exI [of _ 4]) simp
    next
      case 4 then show ?thesis by (intro exI [of _ 3]) simp
    qed
  qed
  then show "fair 4 (rng_cycle [0, 0, 6755399441055744, 3, 2, 1])"
    by (intro fair_cycle) blast
  have b: "\<exists>j < length [1, 2, 3, 3, 1, 2, 0 :: nat].
             int ([1, 2, 3, 3, 1, 2, 0] ! j) mod 4 = v" if "0 \<le> v \<and> v < 4" for v :: int
  proof -
    from that consider "v = 0" | "v = 1" | "v = 2" | "v = 3" by arith
    then show ?thesis
    proof cases
      case 1 then show ?thesis by (intro exI [of _ 6]) simp
    next
      case 2 then show ?thesis by (intro exI [of _ 0]) simp
    next
      case 3 then show ?thesis by (intro exI [of _ 1]) simp
    next
      case 4 then show ?thesis by (intro exI [of _ 2]) simp
    qed
  qed
  then show "fair 4 (rng_cycle [1, 2, 3, 3, 1, 2, 0])"
    by (intro fair_cycle) blast
  have c: "\<exists>j < length [1, 0, 3, 2 :: nat]. int ([1, 0, 3, 2] ! j) mod 4 = v"
    if "0 \<le> v \<and> v < 4" for v :: int
  proof -
    from that consider "v = 0" | "v = 1" | "v = 2" | "v = 3" by arith
    then show ?thesis
    proof cases
      case 1 then show ?thesis by (intro exI [of _ 1]) simp
    next
      case 2 then show ?thesis by (intro exI [of _ 0]) simp
    next
      case 3 then show ?thesis by (intro exI [of _ 3]) simp
    next
      case 4 then show ?thesis by (intro exI [of _ 2]) simp
    qed
  qed
  then show "fair 4 (rng_cycle [1, 0, 3, 2])"
    by (intro fair_cycle) blast
qed

lemma bind_res_simps [simp]:
  "bind_res None k = None"
  "bind_res (Some (Inl e)) k = Some (Inl e)"
  "bind_res (Some (Inr v)) k = k v"
  "bind_res (ok v) k = k v"
  by (simp_all add: bind_res_def ok_def)

lemma bind_res_eq_ok:
  "bind_res m k = Some (Inr w) \<longleftrightarrow> (\<exists>v. m = Some (Inr v) \<and> k v = Some (Inr w))"
  by (auto simp: bind_res_def split: option.splits sum.splits)

lemma free_index: "4 \<le> NP \<Longrightarrow> \<exists>v::int. 0 \<le> v \<and> v < NP \<and> v \<noteq> a \<and> v \<noteq> b \<and> v \<noteq> c"
  by presburger

lemma fair_resample:
  assumes f: "fair NP g" and v: "0 \<le> v" "v < NP" "\<not> c v"
  shows "\<exists>r' n. resample c NP r g = Some (Inr (r', rng_drop n g)) \<and> \<not> c r'"
proof -
  from f v obtain m where "int (g (0 + m)) mod NP = v" unfolding fair_def by blast
  with v have "\<not> c (int (g m) mod NP)" by simp
  moreover from v have "0 < NP" by simp
  ultimately show ?thesis by (rule resample_returns [rotated])
qed

lemma pick_rand_idx_returns:
  assumes NP: "4 \<le> NP" and f: "fair NP g"
  shows "\<exists>r n. pick_rand_idx i NP g = Some (Inr (r, rng_drop n g))"
proof -
  let ?a = "int (g 0) mod NP" and ?b = "int (g 1) mod NP" and ?c = "int (g 2) mod NP"
  from NP have r3: "randint3 0 NP g = Inr ((?a, ?b, ?c), rng_drop 3 g)"
    by (simp add: randint3_def)
  from free_index [OF NP, of i i i] obtain v1 where "0 \<le> v1" "v1 < NP" "\<not> v1 = i" by blast
  from fair_resample [where c = "\<lambda>r. r = i", OF fair_drop [OF f, of 3] this, of ?a] obtain r1 n1 where
    l1: "resample (\<lambda>r. r = i) NP ?a (rng_drop 3 g) = Some (Inr (r1, rng_drop (3 + n1) g))"
    by auto
  from free_index [OF NP, of r1 i i] obtain v2 where "0 \<le> v2" "v2 < NP" "\<not> (v2 = r1 \<or> v2 = i)"
    by blast
  from fair_resample [where c = "\<lambda>r. r = r1 \<or> r = i", OF fair_drop [OF f, of "3 + n1"] this, of ?b] obtain r2 n2 where
    l2: "resample (\<lambda>r. r = r1 \<or> r = i) NP ?b (rng_drop (3 + n1) g)
           = Some (Inr (r2, rng_drop (3 + n1 + n2) g))"
    by auto
  from free_index [OF NP, of r2 r1 i] obtain v3 where
    "0 \<le> v3" "v3 < NP" "\<not> (v3 = r2 \<or> v3 = r1 \<or> v3 = i)" by blast
  from fair_resample [where c = "\<lambda>r. r = r2 \<or> r = r1 \<or> r = i", OF fair_drop [OF f, of "3 + n1 + n2"] this, of ?c] obtain r3' n3 where
    l3: "resample (\<lambda>r. r = r2 \<or> r = r1 \<or> r = i) NP ?c (rng_drop (3 + n1 + n2) g)
           = Some (Inr (r3', rng_drop (3 + n1 + n2 + n3) g))"
    by auto
  have "pick_rand_idx i NP g = Some (Inr ((r1, r2, r3'), rng_drop (3 + n1 + n2 + n3) g))"
    by (simp add: pick_rand_idx_def r3 l1 l2 l3 ok_def del: One_nat_def)
  then show ?thesis by blast
qed

lemma pick_rand_idx_sound:
  assumes "pick_rand_idx i NP g = Some (Inr ((r1, r2, r3), g'))"
  shows "0 \<le> r1 \<and> r1 < NP \<and> 0 \<le> r2 \<and> r2 < NP \<and> 0 \<le> r3 \<and> r3 < NP
         \<and> r1 \<noteq> r2 \<and> r1 \<noteq> r3 \<and> r2 \<noteq> r3 \<and> r1 \<noteq> i \<and> r2 \<noteq> i \<and> r3 \<noteq> i
         \<and> (\<exists>n. g' = rng_drop n g)"
proof -
  from assms have pos: "0 < NP"
    by (cases "NP \<le> 0") (simp_all add: pick_rand_idx_def randint3_def)
  let ?a = "int (g 0) mod NP" and ?b = "int (g 1) mod NP" and ?c = "int (g 2) mod NP"
  from pos have r3: "randint3 0 NP g = Inr ((?a, ?b, ?c), rng_drop 3 g)"
    by (simp add: randint3_def)
  from assms obtain g1 g2 where
    l1: "resample (\<lambda>r. r = i) NP ?a (rng_drop 3 g) = Some (Inr (r1, g1))" and
    l2: "resample (\<lambda>r. r = r1 \<or> r = i) NP ?b g1 = Some (Inr (r2, g2))" and
    l3: "resample (\<lambda>r. r = r2 \<or> r = r1 \<or> r = i) NP ?c g2 = Some (Inr (r3, g'))"
    by (auto simp: pick_rand_idx_def r3 bind_res_eq_ok ok_def simp del: One_nat_def)
  from pos have rg: "0 \<le> ?a \<and> ?a < NP" "0 \<le> ?b \<and> ?b < NP" "0 \<le> ?c \<and> ?c < NP" by simp_all
  from resample_sound [OF l1] rg obtain n1 where
    a: "r1 \<noteq> i" "0 \<le> r1 \<and> r1 < NP" "g1 = rng_drop n1 (rng_drop 3 g)" by auto
  from resample_sound [OF l2] rg obtain n2 where
    b: "r2 \<noteq> r1" "r2 \<noteq> i" "0 \<le> r2 \<and> r2 < NP" "g2 = rng_drop n2 g1" by auto
  from resample_sound [OF l3] rg obtain n3 where
    c: "r3 \<noteq> r2" "r3 \<noteq> r1" "r3 \<noteq> i" "0 \<le> r3 \<and> r3 < NP" "g' = rng_drop n3 g2" by auto
  from a b c have "g' = rng_drop (3 + n1 + n2 + n3) g" by simp
  with a b c show ?thesis by blast
qed

lemma pick_rand_idx_never:
  assumes NP: "0 < NP" "NP < 4" and i: "0 \<le> i" "i < NP"
  shows "pick_rand_idx i NP g = None"
proof (rule ccontr)
  assume "pick_rand_idx i NP g \<noteq> None"
  then obtain y where y: "pick_rand_idx i NP g = Some y" by blast
  show False
  proof (cases y)
    case (Inl e)
    let ?a = "int (g 0) mod NP" and ?b = "int (g 1) mod NP" and ?c = "int (g 2) mod NP"
    from NP have r3: "randint3 0 NP g = Inr ((?a, ?b, ?c), rng_drop 3 g)"
      by (simp add: randint3_def)
    from NP have no_err: "resample c NP r h \<noteq> Some (Inl e)" for c r h e
      by (intro resample_no_error) simp
    from y Inl show False
      by (auto simp: pick_rand_idx_def r3 bind_res_def ok_def no_err simp del: One_nat_def
            split: option.splits sum.splits)
  next
    case (Inr p)
    obtain r1 r2 r3 g' where "p = ((r1, r2, r3), g')" by (cases p) auto
    from pick_rand_idx_sound [OF y [unfolded Inr this]]
    have "0 \<le> r1 \<and> r1 < NP \<and> 0 \<le> r2 \<and> r2 < NP \<and> 0 \<le> r3 \<and> r3 < NP
         \<and> r1 \<noteq> r2 \<and> r1 \<noteq> r3 \<and> r2 \<noteq> r3 \<and> r1 \<noteq> i \<and> r2 \<noteq> i \<and> r3 \<noteq> i" by blast
    with NP i show False by arith
  qed
qed

text \<open>
  Claim C3. Whenever \<open>pick_rand_idx(i, NP)\<close> returns, its three results lie in
  \<open>[0, NP)\<close>, are pairwise distinct and differ from \<open>i\<close>. This holds for every
  \<open>i\<close> and \<open>NP\<close>, in particular for \<open>NP \<ge> 4\<close> and \<open>i\<close> in \<open>[0, NP)\<close>.
\<close>

theorem pick_rand_idx_distinct:
  assumes "pick_rand_idx i NP g = Some (Inr ((r1, r2, r3), g'))"
  shows "0 \<le> r1 \<and> r1 < NP \<and> 0 \<le> r2 \<and> r2 < NP \<and> 0 \<le> r3 \<and> r3 < NP
         \<and> r1 \<noteq> r2 \<and> r1 \<noteq> r3 \<and> r2 \<noteq> r3 \<and> r1 \<noteq> i \<and> r2 \<noteq> i \<and> r3 \<noteq> i"
  using pick_rand_idx_sound [OF assms] by blast

lemma pick_example:
  "pick_rand_idx 0 4 (rng_of [0, 1, 1, 2, 3]) = Some (Inr ((2, 1, 3), rng_of []))"
  by (simp add: pick_rand_idx_def randint3_def randint_def resample.simps ok_def)

theorem pick_rand_idx_distinct_witness:
  "pick_rand_idx 0 4 (rng_of [0, 1, 1, 2, 3]) = Some (Inr ((2, 1, 3), rng_of []))
   \<and> (0::int) \<le> 2 \<and> (2::int) < 4 \<and> (0::int) \<le> 1 \<and> (1::int) < 4 \<and> (0::int) \<le> 3 \<and> (3::int) < 4
   \<and> (2::int) \<noteq> 1 \<and> (2::int) \<noteq> 3 \<and> (1::int) \<noteq> 3 \<and> (2::int) \<noteq> 0 \<and> (1::int) \<noteq> 0 \<and> (3::int) \<noteq> 0"
  using pick_rand_idx_distinct [of 0 4 "rng_of [0, 1, 1, 2, 3]" 2 1 3 "rng_of []"]
  by (simp add: pick_rand_idx_def randint3_def randint_def resample.simps ok_def)

text \<open>
  Claim C9. For \<open>NP \<ge> 4\<close> and \<open>i\<close> in \<open>[0, NP)\<close> the rejection loops of
  \<open>pick_rand_idx\<close> terminate on every fair generator; for \<open>NP < 4\<close> and \<open>i\<close>
  in \<open>[0, NP)\<close> the call never returns, whatever the generator yields.
\<close>

theorem pick_rand_idx_terminates:
  "(4 \<le> NP \<and> 0 \<le> i \<and> i < NP \<and> fair NP g \<longrightarrow> (\<exists>r g'. pick_rand_idx i NP g = Some (Inr (r, g'))))
   \<and> (NP < 4 \<and> 0 \<le> i \<and> i < NP \<longrightarrow> pick_rand_idx i NP g = None)"
  using pick_rand_idx_returns [of NP g i] pick_rand_idx_never [of NP i g] by auto

lemma pick_id: "pick_rand_idx 0 4 (\<lambda>n. n) = Some (Inr ((3, 1, 2), rng_drop 4 (\<lambda>n. n)))"
  by (simp add: pick_rand_idx_def randint3_def randint_def resample.simps ok_def rng_drop_apply)

theorem pick_rand_idx_terminates_witness:
  "fair 4 (\<lambda>n. n) \<and> (\<exists>r g'. pick_rand_idx 0 4 (\<lambda>n. n) = Some (Inr (r, g')))
   \<and> pick_rand_idx 0 3 (\<lambda>n. n) = None"
  using pick_rand_idx_terminates [of 4 0 "\<lambda>n. n"] pick_rand_idx_terminates [of 3 0 "\<lambda>n. n"]
    fair_id [of 4]
  by simp

text \<open>
  Fairness cannot be dropped from the termination result: on the generator that yields
  \<open>0\<close> forever, the first loop of \<open>pick_rand_idx(0, 4)\<close> redraws \<open>0\<close> without end.
\<close>

lemma pick_rand_idx_needs_fairness: "pick_rand_idx 0 4 (rng_of []) = None"
proof -
  have "resample (\<lambda>r. r = 0) 4 0 (rng_of []) = None"
    by (rule resample_spins) simp_all
  then show ?thesis by (simp add: pick_rand_idx_def randint3_def)
qed

subsection \<open>\<open>init_population\<close>\<close>

lemma samples_Suc_eval: "samples (Suc n) g =
  (real (g 0 mod 2 ^ 53) / 2 ^ 53 # fst (samples n (rng_drop 1 g)), snd (samples n (rng_drop 1 g)))"
  by (simp add: random_sample_def case_prod_beta)

lemma sample_rows_Suc_eval: "sample_rows (Suc n) d g =
  (fst (samples d g) # fst (sample_rows n d (snd (samples d g))),
   snd (sample_rows n d (snd (samples d g))))"
  by (simp add: case_prod_beta)

lemma samples_numeral: "samples (numeral k) g =
  (real (g 0 mod 2 ^ 53) / 2 ^ 53 # fst (samples (pred_numeral k) (rng_drop 1 g)),
   snd (samples (pred_numeral k) (rng_drop 1 g)))"
  by (simp only: numeral_eq_Suc samples_Suc_eval)

lemma sample_rows_numeral: "sample_rows (numeral k) d g =
  (fst (samples d g) # fst (sample_rows (pred_numeral k) d (snd (samples d g))),
   snd (sample_rows (pred_numeral k) d (snd (samples d g))))"
  by (simp only: numeral_eq_Suc sample_rows_Suc_eval)

lemma samples_snd [simp]: "snd (samples n g) = rng_drop n g"
  by (induction n arbitrary: g) (simp_all add: samples_Suc_eval del: samples.simps(2))

lemma samples_length [simp]: "length (fst (samples n g)) = n"
  by (induction n arbitrary: g) (simp_all add: samples_Suc_eval del: samples.simps(2))

lemma samples_nth: "j < n \<Longrightarrow> fst (samples n g) ! j = real (g j mod 2 ^ 53) / 2 ^ 53"
proof (induction n arbitrary: g j)
  case 0
  then show ?case by simp
next
  case (Suc n)
  show ?case
  proof (cases j)
    case 0
    then show ?thesis by (simp add: samples_Suc_eval del: samples.simps(2))
  next
    case (Suc j')
    with Suc.prems have "j' < n" by simp
    have "rng_drop 1 g j' = g j" by (simp add: rng_drop_def Suc)
    with Suc.IH [OF \<open>j' < n\<close>, of "rng_drop 1 g"] Suc show ?thesis
      by (simp add: samples_Suc_eval del: samples.simps(2))
  qed
qed

lemma sample_rows_snd [simp]: "snd (sample_rows n d g) = rng_drop (n * d) g"
  by (induction n arbitrary: g) (simp_all add: sample_rows_Suc_eval del: sample_rows.simps(2))

lemma sample_rows_length [simp]: "length (fst (sample_rows n d g)) = n"
  by (induction n arbitrary: g) (simp_all add: sample_rows_Suc_eval del: sample_rows.simps(2))

lemma sample_rows_nth:
  "a < n \<Longrightarrow> fst (sample_rows n d g) ! a = fst (samples d (rng_drop (a * d) g))"
proof (induction n arbitrary: g a)
  case 0
  then show ?case by simp
next
  case (Suc n)
  show ?case
  proof (cases a)
    case 0
    then show ?thesis by (simp add: sample_rows_Suc_eval del: sample_rows.simps(2))
  next
    case (Suc a')
    with Suc.prems have "a' < n" by simp
    from Suc.IH [OF this, of "rng_drop d g"] Suc show ?thesis
      by (simp add: sample_rows_Suc_eval del: sample_rows.simps(2))
  qed
qed

lemma unit_sample_range: "0 \<le> real (n mod 2 ^ 53) / 2 ^ 53 \<and> real (n mod 2 ^ 53) / 2 ^ 53 < 1"
proof -
  have "n mod 2 ^ 53 < (2 ^ 53 :: nat)" by simp
  then have "real (n mod 2 ^ 53) < real (2 ^ 53 :: nat)" by (rule of_nat_less_iff [THEN iffD2])
  then show ?thesis by simp
qed

lemma scale_range:
  fixes r lb ub :: real
  assumes "0 \<le> r" "r < 1" "lb < ub"
  shows "lb \<le> r * (ub - lb) + lb \<and> r * (ub - lb) + lb < ub"
proof -
  from assms have "0 \<le> r * (ub - lb)" by simp
  moreover from assms have "r * (ub - lb) < 1 * (ub - lb)"
    by (intro mult_strict_right_mono) simp_all
  ultimately show ?thesis by simp
qed

text \<open>
  In exact arithmetic, for \<open>NP > 0\<close>, \<open>d > 0\<close> and \<open>lb < ub\<close>, \<open>init_population\<close>
  returns \<open>NP\<close> vectors of dimension \<open>d\<close>; the component at row \<open>a\<close> and column
  \<open>b\<close> is \<open>lb\<close> plus \<open>(ub - lb)\<close> times the sample of \<open>[0, 1)\<close> taken from draw
  number \<open>a * d + b\<close> of the generator, and lies in \<open>[lb, ub)\<close>.
\<close>

lemma init_population_exact_arithmetic:
  assumes "0 < NP" "0 < d" "lb < ub"
  shows "\<exists>pop. init_population NP d lb ub g = Inr (pop, rng_drop (nat NP * nat d) g)
           \<and> length pop = nat NP
           \<and> (\<forall>a < nat NP. length (pop ! a) = nat d
                \<and> (\<forall>b < nat d.
                      pop ! a ! b = real (g (a * nat d + b) mod 2 ^ 53) / 2 ^ 53 * (ub - lb) + lb
                      \<and> lb \<le> pop ! a ! b \<and> pop ! a ! b < ub))"
proof -
  let ?m = "fst (sample_rows (nat NP) (nat d) g)"
  let ?pop = "map (map (\<lambda>r. r * (ub - lb) + lb)) ?m"
  from assms have eq: "init_population NP d lb ub g = Inr (?pop, rng_drop (nat NP * nat d) g)"
    by (simp add: init_population_def np_rand_def case_prod_beta)
  have rows: "length (?pop ! a) = nat d
        \<and> (\<forall>b < nat d.
              ?pop ! a ! b = real (g (a * nat d + b) mod 2 ^ 53) / 2 ^ 53 * (ub - lb) + lb
              \<and> lb \<le> ?pop ! a ! b \<and> ?pop ! a ! b < ub)" if a: "a < nat NP" for a
  proof -
    from a have row: "?pop ! a = map (\<lambda>r. r * (ub - lb) + lb) (fst (samples (nat d) (rng_drop (a * nat d) g)))"
      by (simp add: sample_rows_nth)
    have "?pop ! a ! b = real (g (a * nat d + b) mod 2 ^ 53) / 2 ^ 53 * (ub - lb) + lb
              \<and> lb \<le> ?pop ! a ! b \<and> ?pop ! a ! b < ub" if b: "b < nat d" for b
    proof -
      have "rng_drop (a * nat d) g b = g (a * nat d + b)" by (simp add: rng_drop_def)
      with b have "?pop ! a ! b = real (g (a * nat d + b) mod 2 ^ 53) / 2 ^ 53 * (ub - lb) + lb"
        by (simp only: row nth_map samples_length samples_nth)
      with scale_range [OF _ _ assms(3), of "real (g (a * nat d + b) mod 2 ^ 53) / 2 ^ 53"]
        unit_sample_range [of "g (a * nat d + b)"]
      show ?thesis by presburger
    qed
    moreover have "length (?pop ! a) = nat d" by (simp only: row length_map samples_length)
    ultimately show ?thesis by blast
  qed
  have len: "length ?pop = nat NP" by simp
  from eq len rows show ?thesis by blast
qed

lemma init_population_example:
  "init_population 2 2 (- 1) 1 (rng_of [0, 4503599627370496, 2251799813685248, 6755399441055744])
       = Inr ([[- 1, 0], [- 1 / 2, 1 / 2]], rng_of [])"
  by (simp add: init_population_def np_rand_def samples_numeral sample_rows_numeral
        samples_Suc_eval sample_rows_Suc_eval del: samples.simps(2) sample_rows.simps(2))

text \<open>
  Rounding to binary64. The lemmas below evaluate \<open>f64\<close> at the three numbers met
  when the largest sample, \<open>1 - 1 / 2 ^ 53\<close>, is scaled to the bounds \<open>1\<close> and \<open>2\<close>.
\<close>

lemma f64_ulp_binade:
  assumes "2 powi k \<le> \<bar>x\<bar>" and "\<bar>x\<bar> < 2 powi (k + 1)" and "- 1022 \<le> k"
  shows "f64_ulp x = 2 powi (k - 52)"
proof -
  have "(0::real) < 2 powi k" by simp
  with assms(1) have pos: "0 < \<bar>x\<bar>" by linarith
  have a: "2 powr real_of_int k = (2::real) powi k"
    by (rule powr_real_of_int') simp_all
  have "2 powr real_of_int (k + 1) = (2::real) powi (k + 1)"
    by (rule powr_real_of_int') simp_all
  then have b: "2 powr (real_of_int k + 1) = (2::real) powi (k + 1)" by simp
  from assms(1,2) have "2 powr real_of_int k \<le> \<bar>x\<bar> \<and> \<bar>x\<bar> < 2 powr (real_of_int k + 1)"
    by (simp only: a b)
  with pos have "\<lfloor>log 2 \<bar>x\<bar>\<rfloor> = k"
    by (intro floor_log_eq_powr_iff [THEN iffD2]) simp_all
  with assms(3) show ?thesis by (simp add: f64_ulp_def)
qed

lemma f64_binade:
  assumes "2 powi k \<le> \<bar>x\<bar>" and "\<bar>x\<bar> < 2 powi (k + 1)" and "- 1022 \<le> k"
  shows "f64 x = of_int (rne (x / 2 powi (k - 52))) * 2 powi (k - 52)"
proof -
  have "(0::real) < 2 powi k" by simp
  with assms(1) have "0 < \<bar>x\<bar>" by linarith
  then have "x \<noteq> 0" by auto
  with f64_ulp_binade [OF assms] show ?thesis by (simp add: f64_def)
qed

lemma f64_one: "f64 1 = 1"
proof -
  have "f64 1 = of_int (rne (1 / 2 powi (0 - 52))) * 2 powi (0 - 52)"
    by (rule f64_binade) simp_all
  moreover have "1 / (2::real) powi (0 - 52) = 4503599627370496" by (simp add: power_int_minus)
  moreover have "rne 4503599627370496 = 4503599627370496" by (simp add: rne_def)
  ultimately show ?thesis by (simp add: power_int_minus)
qed

lemma f64_last_below_one:
  "f64 (9007199254740991 / 9007199254740992) = 9007199254740991 / 9007199254740992"
proof -
  have "f64 (9007199254740991 / 9007199254740992)
      = of_int (rne (9007199254740991 / 9007199254740992 / 2 powi (- 1 - 52))) * 2 powi (- 1 - 52)"
    by (rule f64_binade) (simp_all add: power_int_minus)
  moreover have "9007199254740991 / 9007199254740992 / (2::real) powi (- 1 - 52) = 9007199254740991"
    by (simp add: power_int_minus)
  moreover have "rne 9007199254740991 = 9007199254740991" by (simp add: rne_def)
  ultimately show ?thesis by (simp add: power_int_minus)
qed

lemma f64_tie_to_two:
  "f64 (18014398509481983 / 9007199254740992) = 2"
proof -
  have sum: "(18014398509481983 / 9007199254740992 :: real) = 9007199254740991 / 9007199254740992 + 1"
    by simp
  have "f64 (9007199254740991 / 9007199254740992 + 1)
      = of_int (rne ((9007199254740991 / 9007199254740992 + 1) / 2 powi (0 - 52))) * 2 powi (0 - 52)"
    by (rule f64_binade) (simp_all add: power_int_minus)
  moreover have "(9007199254740991 / 9007199254740992 + 1) / (2::real) powi (0 - 52)
      = 18014398509481983 / 2"
    by (simp add: power_int_minus)
  moreover have "\<lfloor>18014398509481983 / 2 :: real\<rfloor> = 9007199254740991" by simp
  then have "rne (18014398509481983 / 2) = 9007199254740992" by (simp add: rne_def)
  ultimately have "f64 (9007199254740991 / 9007199254740992 + 1) = 2"
    by (simp add: power_int_minus)
  then show ?thesis by (simp only: sum)
qed

text \<open>
  Claim C8 fails on the code. \<open>init_population(1, 1, 1.0, 2.0)\<close>, when
  \<open>np.random.rand\<close> returns its largest sample \<open>1 - 1 / 2 ^ 53\<close>, computes
  \<open>(1 - 1 / 2 ^ 53) * 1.0 + 1.0\<close>. The exact sum \<open>2 - 1 / 2 ^ 53\<close> lies half way
  between the binary64 neighbours \<open>2 - 1 / 2 ^ 52\<close> and \<open>2\<close> and is rounded to the even
  one: the component returned is \<open>2 = ub\<close>, outside \<open>[lb, ub)\<close>. Only in exact
  arithmetic does the component stay below \<open>ub\<close>.
\<close>

theorem init_population_reaches_upper_bound:
  "init_population_f64 1 1 1 2 (rng_of [9007199254740991]) = Inr ([[2]], rng_of [])
   \<and> init_population 1 1 1 2 (rng_of [9007199254740991])
       = Inr ([[18014398509481983 / 9007199254740992]], rng_of [])"
  by (simp add: init_population_f64_def init_population_def np_rand_def samples_Suc_eval
        sample_rows_Suc_eval f64_one f64_last_below_one f64_tie_to_two
        del: samples.simps(2) sample_rows.simps(2))

subsection \<open>\<open>rand_search\<close>\<close>

lemma init_population_ok_iff:
  "(\<exists>p. init_population NP d lb ub g = Inr p) \<longleftrightarrow> 0 \<le> NP \<and> 0 \<le> d"
  by (auto simp: init_population_def np_rand_def case_prod_beta)

lemma init_population_star_ok_iff:
  "(\<exists>p. init_population_star NP d ob g = Inr p) \<longleftrightarrow> 0 \<le> NP \<and> 0 \<le> d \<and> length ob \<le> 2"
proof -
  consider "ob = []" | lb where "ob = [lb]" | lb ub where "ob = [lb, ub]"
    | a b c rest where "ob = a # b # c # rest"
    by (cases ob rule: list.exhaust; simp)
       (metis list.exhaust)
  then show ?thesis
    using init_population_ok_iff
    by cases (simp_all add: init_population_star_def)
qed

lemma sample_rows_row_length:
  "row \<in> set (fst (sample_rows n d g)) \<Longrightarrow> length row = d"
  by (induction n arbitrary: g)
     (auto simp: sample_rows_Suc_eval simp del: sample_rows.simps(2))

lemma init_population_Inr:
  assumes "init_population NP d lb ub g = Inr (x, g')"
  shows "length x = nat NP \<and> (\<forall>row \<in> set x. length row = nat d)
         \<and> g' = rng_drop (nat NP * nat d) g"
proof -
  from assms have x: "x = map (map (\<lambda>r. r * (ub - lb) + lb)) (fst (sample_rows (nat NP) (nat d) g))"
    and g': "g' = rng_drop (nat NP * nat d) g"
    by (auto simp: init_population_def np_rand_def case_prod_beta split: if_splits)
  from x have "\<forall>row \<in> set x. length row = nat d"
    by (auto dest: sample_rows_row_length)
  with x g' show ?thesis by simp
qed

lemma init_population_star_Inr:
  assumes "init_population_star NP d ob g = Inr (x, g')"
  shows "length x = nat NP \<and> (\<forall>row \<in> set x. length row = nat d)
         \<and> g' = rng_drop (nat NP * nat d) g"
proof -
  from assms obtain lb ub where "init_population NP d lb ub g = Inr (x, g')"
    by (auto simp: init_population_star_def split: list.splits)
  then show ?thesis by (rule init_population_Inr)
qed

lemma init_population_star_total:
  assumes "init_population_star NP d ob g = Inr p"
  shows "\<exists>q. init_population_star NP d ob h = Inr q"
  using assms init_population_star_ok_iff [of NP d ob g] init_population_star_ok_iff [of NP d ob h]
  by blast

lemma rs_scan_best:
  "\<exists>v. rs_scan f vs (b, f b) = (v, f v) \<and> v \<in> set (b # vs) \<and> (\<forall>c \<in> set (b # vs). f v \<le> f c)"
proof (induction vs arbitrary: b)
  case Nil
  then show ?case by simp
next
  case (Cons a vs)
  show ?case
  proof (cases "f a < f b")
    case True
    from Cons.IH [of a] obtain v where
      "rs_scan f vs (a, f a) = (v, f v)" "v \<in> set (a # vs)" "\<forall>c \<in> set (a # vs). f v \<le> f c"
      by blast
    with True show ?thesis by (intro exI [of _ v]) auto
  next
    case False
    from Cons.IH [of b] obtain v where
      "rs_scan f vs (b, f b) = (v, f v)" "v \<in> set (b # vs)" "\<forall>c \<in> set (b # vs). f v \<le> f c"
      by blast
    with False show ?thesis by (intro exI [of _ v]) auto
  qed
qed

lemma rs_loop_best:
  assumes ok: "0 \<le> NP" "0 \<le> d" "length ob \<le> 2"
  shows "\<exists>v. rs_loop NP f max_gen d ob n_gen (b, f b) g = Inr v
           \<and> v \<in> set (b # concat (draw_pops (nat (max_gen - n_gen)) NP d ob g))
           \<and> (\<forall>c \<in> set (b # concat (draw_pops (nat (max_gen - n_gen)) NP d ob g)). f v \<le> f c)"
proof (induction "nat (max_gen - n_gen)" arbitrary: n_gen b g)
  case 0
  then have "\<not> n_gen < max_gen" by simp
  with 0 show ?case by simp
next
  case (Suc k)
  then have lt: "n_gen < max_gen" and k: "k = nat (max_gen - (n_gen + 1))" by simp_all
  from ok init_population_star_ok_iff [of NP d ob g] obtain x g' where
    ip: "init_population_star NP d ob g = Inr (x, g')" by force
  from rs_scan_best [of f x b] obtain b' where
    sc: "rs_scan f x (b, f b) = (b', f b')" "b' \<in> set (b # x)" "\<forall>c \<in> set (b # x). f b' \<le> f c"
    by blast
  from Suc.hyps(1) [OF k, of b' g'] obtain v where
    v: "rs_loop NP f max_gen d ob (n_gen + 1) (b', f b') g' = Inr v"
       "v \<in> set (b' # concat (draw_pops k NP d ob g'))"
       "\<forall>c \<in> set (b' # concat (draw_pops k NP d ob g')). f v \<le> f c"
    unfolding k by blast
  from Suc.hyps(2) have dp: "draw_pops (nat (max_gen - n_gen)) NP d ob g = x # draw_pops k NP d ob g'"
    by (metis draw_pops.simps(2) ip old.sum.simps(6) case_prod_conv)
  from lt ip sc v(1) have "rs_loop NP f max_gen d ob n_gen (b, f b) g = Inr v" by simp
  moreover from v(2) sc(2) have "v \<in> set (b # concat (x # draw_pops k NP d ob g'))" by auto
  moreover from v(3) sc(3) have "\<forall>c \<in> set (b # concat (x # draw_pops k NP d ob g')). f v \<le> f c"
    by (auto intro: order_trans)
  ultimately show ?case unfolding dp by blast
qed

text \<open>
  Claim C10. \<open>rand_search\<close> evaluates, of the initial population, the first member
  only: it returns a vector of least fitness among \<open>x[0]\<close> and the members of the
  \<open>max_gen\<close> populations drawn afterwards, and for \<open>max_gen = 0\<close> it returns
  \<open>x[0]\<close>, whatever the fitness of the other initial members.
\<close>

theorem rand_search_best:
  assumes "init_population_star NP d obj_bounds g = Inr (x, g0)" and "0 < NP"
  shows "\<exists>v. rand_search NP f max_gen d obj_bounds g = Inr v
           \<and> v \<in> set (x ! 0 # concat (draw_pops (nat max_gen) NP d obj_bounds g0))
           \<and> (\<forall>c \<in> set (x ! 0 # concat (draw_pops (nat max_gen) NP d obj_bounds g0)). f v \<le> f c)
           \<and> (max_gen \<le> 0 \<longrightarrow> v = x ! 0)"
proof -
  from assms(1) init_population_star_ok_iff [of NP d obj_bounds g]
  have ok: "0 \<le> NP" "0 \<le> d" "length obj_bounds \<le> 2" by blast+
  from init_population_star_Inr [OF assms(1)] have "length x = nat NP" by blast
  with assms(2) have x0: "py_get x 0 = Inr (x ! 0)" by (simp add: py_get_def)
  from rs_loop_best [OF ok, of f max_gen 0 "x ! 0" g0] obtain v where
    v: "rs_loop NP f max_gen d obj_bounds 0 (x ! 0, f (x ! 0)) g0 = Inr v"
       "v \<in> set (x ! 0 # concat (draw_pops (nat max_gen) NP d obj_bounds g0))"
       "\<forall>c \<in> set (x ! 0 # concat (draw_pops (nat max_gen) NP d obj_bounds g0)). f v \<le> f c"
    by auto
  from v(1) have "max_gen \<le> 0 \<longrightarrow> v = x ! 0" by auto
  moreover from assms(1) x0 v(1) have "rand_search NP f max_gen d obj_bounds g = Inr v"
    by (simp add: rand_search_def)
  ultimately show ?thesis using v(2,3) by blast
qed

lemma rand_search_example:
  "rand_search 2 hd 0 1 [0, 1] (rng_of [4503599627370496, 0]) = Inr [1 / 2]"
  by (simp add: rand_search_def init_population_star_def init_population_def np_rand_def
        samples_numeral sample_rows_numeral samples_Suc_eval sample_rows_Suc_eval py_get_def
        del: samples.simps(2) sample_rows.simps(2))

lemma init_star_example:
  "init_population_star 2 1 [0, 1] (rng_of [4503599627370496, 0]) = Inr ([[1 / 2], [0]], rng_of [])"
  by (simp add: init_population_star_def init_population_def np_rand_def
        samples_numeral sample_rows_numeral samples_Suc_eval sample_rows_Suc_eval
        del: samples.simps(2) sample_rows.simps(2))

lemma rand_search_example_one_generation:
  "rand_search 2 hd 1 1 [0, 1]
     (rng_of [4503599627370496, 0, 6755399441055744, 2251799813685248]) = Inr [1 / 4]"
  by (simp add: rand_search_def init_population_star_def init_population_def np_rand_def
        samples_numeral sample_rows_numeral samples_Suc_eval sample_rows_Suc_eval py_get_def
        del: samples.simps(2) sample_rows.simps(2))

theorem rand_search_best_witness:
  "init_population_star 2 1 [0, 1] (rng_of [4503599627370496, 0]) = Inr ([[1 / 2], [0]], rng_of [])
   \<and> (0::int) < 2
   \<and> rand_search 2 hd 0 1 [0, 1] (rng_of [4503599627370496, 0]) = Inr [1 / 2]
   \<and> hd [0] < hd [1 / 2 :: real]
   \<and> rand_search 2 hd 1 1 [0, 1]
         (rng_of [4503599627370496, 0, 6755399441055744, 2251799813685248]) = Inr [1 / 4]"
proof -
  have h: "(0::int) < 2" by simp
  note t = rand_search_best [OF init_star_example h, of hd 0]
  from t h init_star_example rand_search_example rand_search_example_one_generation
  show ?thesis by simp
qed

subsection \<open>\<open>mutate_at_pos\<close> and the loop over the dimensions\<close>

lemma pick_rand_idx_consumes:
  assumes "pick_rand_idx i NP g = Some (Inr (r, g'))"
  shows "\<exists>n. 3 \<le> n \<and> g' = rng_drop n g"
proof -
  obtain r1 r2 r3 where r: "r = (r1, r2, r3)" by (cases r) auto
  from assms have pos: "0 < NP"
    by (cases "NP \<le> 0") (simp_all add: pick_rand_idx_def randint3_def)
  let ?a = "int (g 0) mod NP" and ?b = "int (g 1) mod NP" and ?c = "int (g 2) mod NP"
  from pos have r3: "randint3 0 NP g = Inr ((?a, ?b, ?c), rng_drop 3 g)"
    by (simp add: randint3_def)
  from assms obtain g1 g2 where
    l1: "resample (\<lambda>r. r = i) NP ?a (rng_drop 3 g) = Some (Inr (r1, g1))" and
    l2: "resample (\<lambda>r. r = r1 \<or> r = i) NP ?b g1 = Some (Inr (r2, g2))" and
    l3: "resample (\<lambda>r. r = r2 \<or> r = r1 \<or> r = i) NP ?c g2 = Some (Inr (r3, g'))"
    by (auto simp: r pick_rand_idx_def r3 bind_res_eq_ok ok_def simp del: One_nat_def)
  from resample_sound [OF l1] obtain n1 where "g1 = rng_drop n1 (rng_drop 3 g)" by auto
  moreover from resample_sound [OF l2] obtain n2 where "g2 = rng_drop n2 g1" by auto
  moreover from resample_sound [OF l3] obtain n3 where "g' = rng_drop n3 g2" by auto
  ultimately have "g' = rng_drop (3 + n1 + n2 + n3) g" by simp
  then show ?thesis by (intro exI [of _ "3 + n1 + n2 + n3"]) simp
qed

lemma py_get_nat: "py_get xs (int k) = Inr v \<longleftrightarrow> k < length xs \<and> v = xs ! k"
  by (auto simp: py_get_def)

lemma py_get_in_range: "0 \<le> r \<Longrightarrow> r < int (length xs) \<Longrightarrow> py_get xs r = Inr (xs ! nat r)"
  by (simp add: py_get_def)

lemma at2_Inr:
  assumes "0 \<le> r" "r < int (length x)"
  shows "at2 x r (int k) = Inr v \<longleftrightarrow> k < length (x ! nat r) \<and> v = x ! nat r ! k"
  using assms by (simp add: at2_def py_get_in_range py_get_nat)

lemma mutate_at_pos_Inr:
  assumes "mutate_at_pos x F i (int k) g = Some (Inr (v, g'))"
  shows "\<exists>r1 r2 r3. pick_rand_idx i (int (length x)) g = Some (Inr ((r1, r2, r3), g'))
           \<and> k < length (x ! nat r1) \<and> k < length (x ! nat r2) \<and> k < length (x ! nat r3)
           \<and> v = x ! nat r1 ! k + F * (x ! nat r2 ! k - x ! nat r3 ! k)"
proof -
  from assms obtain r1 r2 r3 a b c where
    p: "pick_rand_idx i (int (length x)) g = Some (Inr ((r1, r2, r3), g'))" and
    a: "at2 x r1 (int k) = Inr a" and b: "at2 x r2 (int k) = Inr b" and
    c: "at2 x r3 (int k) = Inr c" and v: "v = a + F * (b - c)"
    by (auto simp: mutate_at_pos_def bind_res_eq_ok ok_def)
  from pick_rand_idx_sound [OF p] have
    "0 \<le> r1" "r1 < int (length x)" "0 \<le> r2" "r2 < int (length x)" "0 \<le> r3" "r3 < int (length x)"
    by blast+
  with a b c v p show ?thesis by (auto simp: at2_Inr)
qed

lemma set_elem_simps [simp]:
  "a \<noteq> b \<Longrightarrow> set_elem h a i k v b = h b"
  "set_elem h a i k v a = (h a)[i := (h a ! i)[k := v]]"
  by (simp_all add: set_elem_def)

lemma set_row_simps [simp]:
  "a \<noteq> b \<Longrightarrow> set_row h a i row b = h b"
  "set_row h a i row a = (h a)[i := row]"
  by (simp_all add: set_row_def)

lemma crossover_loop_frame:
  assumes "crossover_loop CR F i rnbr randb ks s = Some (Inr s')"
    and "x_ref s \<noteq> U" and "i < length (arrays s U)"
  shows "x_ref s' = x_ref s \<and> (\<forall>r. r \<noteq> U \<longrightarrow> arrays s' r = arrays s r)
         \<and> length (arrays s' U) = length (arrays s U)
         \<and> (\<forall>j. j \<noteq> i \<longrightarrow> arrays s' U ! j = arrays s U ! j)
         \<and> length (arrays s' U ! i) = length (arrays s U ! i)
         \<and> (\<forall>k. k \<notin> set ks \<longrightarrow> arrays s' U ! i ! k = arrays s U ! i ! k)
         \<and> (\<exists>n. rnd s' = rng_drop n (rnd s))"
  using assms
proof (induction ks arbitrary: s)
  case Nil
  then have "s' = s" by (simp add: ok_def)
  then show ?case by (auto intro: exI [of _ "0::nat"])
next
  case (Cons k ks)
  let ?x = "arrays s (x_ref s)"
  show ?case
  proof (cases "int k = rnbr \<or> randb ! k < CR")
    case True
    with Cons.prems(1) obtain v g1 where
      m: "mutate_at_pos ?x F (int i) (int k) (rnd s) = Some (Inr (v, g1))" and
      rest: "crossover_loop CR F i rnbr randb ks
               (s\<lparr>arrays := set_elem (arrays s) U i k v, rnd := g1\<rparr>) = Some (Inr s')"
      by (auto simp: bind_res_eq_ok)
    let ?s1 = "s\<lparr>arrays := set_elem (arrays s) U i k v, rnd := g1\<rparr>"
    from mutate_at_pos_Inr [OF m] pick_rand_idx_consumes obtain n1 where g1: "g1 = rng_drop n1 (rnd s)"
      by blast
    from Cons.prems have p1: "x_ref ?s1 \<noteq> U" "i < length (arrays ?s1 U)" by simp_all
    from Cons.IH [OF rest p1] obtain n where
      ih: "x_ref s' = x_ref ?s1" "\<forall>r. r \<noteq> U \<longrightarrow> arrays s' r = arrays ?s1 r"
          "length (arrays s' U) = length (arrays ?s1 U)"
          "\<forall>j. j \<noteq> i \<longrightarrow> arrays s' U ! j = arrays ?s1 U ! j"
          "length (arrays s' U ! i) = length (arrays ?s1 U ! i)"
          "\<forall>k. k \<notin> set ks \<longrightarrow> arrays s' U ! i ! k = arrays ?s1 U ! i ! k"
          "rnd s' = rng_drop n (rnd ?s1)"
      by blast
    from ih(7) g1 have "rnd s' = rng_drop (n1 + n) (rnd s)" by simp
    with ih(1-6) Cons.prems(2,3) show ?thesis by (auto simp: nth_list_update)
  next
    case False
    let ?s1 = "s\<lparr>arrays := set_elem (arrays s) U i k (?x ! i ! k)\<rparr>"
    from False Cons.prems(1) have
      rest: "crossover_loop CR F i rnbr randb ks ?s1 = Some (Inr s')" by simp
    from Cons.prems have p1: "x_ref ?s1 \<noteq> U" "i < length (arrays ?s1 U)" by simp_all
    from Cons.IH [OF rest p1] obtain n where
      ih: "x_ref s' = x_ref ?s1" "\<forall>r. r \<noteq> U \<longrightarrow> arrays s' r = arrays ?s1 r"
          "length (arrays s' U) = length (arrays ?s1 U)"
          "\<forall>j. j \<noteq> i \<longrightarrow> arrays s' U ! j = arrays ?s1 U ! j"
          "length (arrays s' U ! i) = length (arrays ?s1 U ! i)"
          "\<forall>k. k \<notin> set ks \<longrightarrow> arrays s' U ! i ! k = arrays ?s1 U ! i ! k"
          "rnd s' = rng_drop n (rnd ?s1)"
      by blast
    from ih Cons.prems(2,3) show ?thesis by (auto simp: nth_list_update)
  qed
qed

lemma crossover_loop_values:
  assumes "crossover_loop CR F i rnbr randb ks s = Some (Inr s')"
    and "x_ref s \<noteq> U" and "i < length (arrays s U)"
    and "\<forall>k \<in> set ks. k < length (arrays s U ! i)" and "sorted_wrt (<) ks"
  shows "\<exists>offs ends. \<forall>k \<in> set ks.
           ((int k = rnbr \<or> randb ! k < CR) \<longrightarrow>
              offs k + 3 \<le> ends k
              \<and> mutate_at_pos (arrays s (x_ref s)) F (int i) (int k) (rng_drop (offs k) (rnd s))
                  = Some (Inr (arrays s' U ! i ! k, rng_drop (ends k) (rnd s)))
              \<and> (\<forall>k' \<in> set ks. k' < k \<and> (int k' = rnbr \<or> randb ! k' < CR) \<longrightarrow> ends k' \<le> offs k))
         \<and> (\<not> (int k = rnbr \<or> randb ! k < CR) \<longrightarrow>
              arrays s' U ! i ! k = arrays s (x_ref s) ! i ! k)"
  using assms
proof (induction ks arbitrary: s)
  case Nil
  then show ?case by simp
next
  case (Cons k ks)
  let ?x = "arrays s (x_ref s)"
  let ?mut = "\<lambda>k. int k = rnbr \<or> randb ! k < CR"
  from Cons.prems(5) have knot: "k \<notin> set ks" and klt: "\<forall>k' \<in> set ks. k < k'" and
    sorted: "sorted_wrt (<) ks" by auto
  from Cons.prems(4) have kin: "k < length (arrays s U ! i)" by simp
  show ?case
  proof (cases "?mut k")
    case True
    with Cons.prems(1) obtain v g1 where
      m: "mutate_at_pos ?x F (int i) (int k) (rnd s) = Some (Inr (v, g1))" and
      rest: "crossover_loop CR F i rnbr randb ks
               (s\<lparr>arrays := set_elem (arrays s) U i k v, rnd := g1\<rparr>) = Some (Inr s')"
      by (auto simp: bind_res_eq_ok)
    let ?s1 = "s\<lparr>arrays := set_elem (arrays s) U i k v, rnd := g1\<rparr>"
    from mutate_at_pos_Inr [OF m] pick_rand_idx_consumes obtain n1 where
      n1: "3 \<le> n1" and g1: "g1 = rng_drop n1 (rnd s)" by blast
    from Cons.prems have p1: "x_ref ?s1 \<noteq> U" "i < length (arrays ?s1 U)"
      "\<forall>k \<in> set ks. k < length (arrays ?s1 U ! i)" by simp_all
    from Cons.prems(2) have x1: "arrays ?s1 (x_ref ?s1) = ?x" by simp
    from crossover_loop_frame [OF rest p1(1,2)] knot Cons.prems(3) kin
    have head: "arrays s' U ! i ! k = v" by simp
    from Cons.IH [OF rest p1 sorted] obtain offs1 ends1 where
      ih: "\<forall>k \<in> set ks.
           (?mut k \<longrightarrow>
              offs1 k + 3 \<le> ends1 k
              \<and> mutate_at_pos ?x F (int i) (int k) (rng_drop (offs1 k) (rnd ?s1))
                  = Some (Inr (arrays s' U ! i ! k, rng_drop (ends1 k) (rnd ?s1)))
              \<and> (\<forall>k' \<in> set ks. k' < k \<and> ?mut k' \<longrightarrow> ends1 k' \<le> offs1 k))
         \<and> (\<not> ?mut k \<longrightarrow> arrays s' U ! i ! k = ?x ! i ! k)"
      unfolding x1 by blast
    define offs where "offs = (\<lambda>k'. if k' = k then 0 else n1 + offs1 k')"
    define ends where "ends = (\<lambda>k'. if k' = k then n1 else n1 + ends1 k')"
    have "(?mut j \<longrightarrow>
              offs j + 3 \<le> ends j
              \<and> mutate_at_pos ?x F (int i) (int j) (rng_drop (offs j) (rnd s))
                  = Some (Inr (arrays s' U ! i ! j, rng_drop (ends j) (rnd s)))
              \<and> (\<forall>k' \<in> set (k # ks). k' < j \<and> ?mut k' \<longrightarrow> ends k' \<le> offs j))
         \<and> (\<not> ?mut j \<longrightarrow> arrays s' U ! i ! j = ?x ! i ! j)" if j: "j \<in> set (k # ks)" for j
    proof (cases "j = k")
      case True
      with m head g1 n1 klt \<open>?mut k\<close> show ?thesis
        by (auto simp: offs_def ends_def)
    next
      case False
      with j have jin: "j \<in> set ks" by simp
      with klt have "k < j" by blast
      from ih jin have a: "?mut j \<longrightarrow>
              offs1 j + 3 \<le> ends1 j
              \<and> mutate_at_pos ?x F (int i) (int j) (rng_drop (offs1 j) (rnd ?s1))
                  = Some (Inr (arrays s' U ! i ! j, rng_drop (ends1 j) (rnd ?s1)))
              \<and> (\<forall>k' \<in> set ks. k' < j \<and> ?mut k' \<longrightarrow> ends1 k' \<le> offs1 j)"
        and b: "\<not> ?mut j \<longrightarrow> arrays s' U ! i ! j = ?x ! i ! j" by blast+
      have "rng_drop (offs1 j) (rnd ?s1) = rng_drop (offs j) (rnd s)"
           "rng_drop (ends1 j) (rnd ?s1) = rng_drop (ends j) (rnd s)"
        using False by (simp_all add: offs_def ends_def g1)
      with a have "?mut j \<longrightarrow>
              offs j + 3 \<le> ends j
              \<and> mutate_at_pos ?x F (int i) (int j) (rng_drop (offs j) (rnd s))
                  = Some (Inr (arrays s' U ! i ! j, rng_drop (ends j) (rnd s)))
              \<and> (\<forall>k' \<in> set (k # ks). k' < j \<and> ?mut k' \<longrightarrow> ends k' \<le> offs j)"
        using False by (auto simp: offs_def ends_def)
      with b show ?thesis by blast
    qed
    then show ?thesis by blast
  next
    case False
    let ?s1 = "s\<lparr>arrays := set_elem (arrays s) U i k (?x ! i ! k)\<rparr>"
    from False Cons.prems(1) have
      rest: "crossover_loop CR F i rnbr randb ks ?s1 = Some (Inr s')" by simp
    from Cons.prems have p1: "x_ref ?s1 \<noteq> U" "i < length (arrays ?s1 U)"
      "\<forall>k \<in> set ks. k < length (arrays ?s1 U ! i)" by simp_all
    from Cons.prems(2) have x1: "arrays ?s1 (x_ref ?s1) = ?x" by simp
    from crossover_loop_frame [OF rest p1(1,2)] knot Cons.prems(3) kin
    have head: "arrays s' U ! i ! k = ?x ! i ! k" by simp
    from Cons.IH [OF rest p1 sorted] obtain offs ends where
      ih: "\<forall>k \<in> set ks.
           (?mut k \<longrightarrow>
              offs k + 3 \<le> ends k
              \<and> mutate_at_pos ?x F (int i) (int k) (rng_drop (offs k) (rnd s))
                  = Some (Inr (arrays s' U ! i ! k, rng_drop (ends k) (rnd s)))
              \<and> (\<forall>k' \<in> set ks. k' < k \<and> ?mut k' \<longrightarrow> ends k' \<le> offs k))
         \<and> (\<not> ?mut k \<longrightarrow> arrays s' U ! i ! k = ?x ! i ! k)"
      unfolding x1 by auto
    have "(?mut j \<longrightarrow>
              offs j + 3 \<le> ends j
              \<and> mutate_at_pos ?x F (int i) (int j) (rng_drop (offs j) (rnd s))
                  = Some (Inr (arrays s' U ! i ! j, rng_drop (ends j) (rnd s)))
              \<and> (\<forall>k' \<in> set (k # ks). k' < j \<and> ?mut k' \<longrightarrow> ends k' \<le> offs j))
         \<and> (\<not> ?mut j \<longrightarrow> arrays s' U ! i ! j = ?x ! i ! j)" if j: "j \<in> set (k # ks)" for j
    proof (cases "j = k")
      case True
      with head False show ?thesis by simp
    next
      case jk: False
      with j have jin: "j \<in> set ks" by simp
      with ih False show ?thesis by auto
    qed
    then show ?thesis by blast
  qed
qed

subsection \<open>The sweep over the members\<close>

lemma select_simps [simp]:
  "x_ref (select f i s) = x_ref s"
  "rnd (select f i s) = rnd s"
  "r \<noteq> XG \<Longrightarrow> arrays (select f i s) r = arrays s r"
  "arrays (select f i s) XG =
     (arrays s XG)[i := (if f (arrays s U ! i) < f (arrays s (x_ref s) ! i)
                         then arrays s U ! i else arrays s (x_ref s) ! i)]"
  by (simp_all add: select_def)

lemma member_loop_Cons_Inr:
  assumes "member_loop f CR F d (i # is) s = Some (Inr s')"
  shows "\<exists>rnbr randb s1. 0 < d \<and> 0 \<le> rnbr \<and> rnbr < d
           \<and> rnbr = int (rnd s 0) mod d
           \<and> randb = fst (samples (nat d) (rng_drop 1 (rnd s)))
           \<and> crossover_loop CR F i rnbr randb [0..<nat d]
                (s\<lparr>rnd := rng_drop (1 + nat d) (rnd s)\<rparr>) = Some (Inr s1)
           \<and> member_loop f CR F d is (select f i s1) = Some (Inr s')"
proof -
  from assms have d: "0 < d"
    by (cases "0 < d") (simp_all add: randint_def)
  with assms show ?thesis
    by (simp add: randint_def np_random_def bind_res_eq_ok case_prod_beta)
qed

lemma member_loop_frame:
  assumes "member_loop f CR F d is s = Some (Inr s')"
    and "x_ref s \<noteq> U" and "\<forall>i \<in> set is. i < length (arrays s U)"
  shows "x_ref s' = x_ref s \<and> arrays s' X0 = arrays s X0
         \<and> length (arrays s' U) = length (arrays s U)
         \<and> length (arrays s' XG) = length (arrays s XG)
         \<and> (\<forall>j. j \<notin> set is \<longrightarrow> arrays s' U ! j = arrays s U ! j \<and> arrays s' XG ! j = arrays s XG ! j)
         \<and> (\<exists>n. rnd s' = rng_drop n (rnd s))"
  using assms
proof (induction "is" arbitrary: s)
  case Nil
  then have "s' = s" by (simp add: ok_def)
  then show ?case by (auto intro: exI [of _ "0::nat"])
next
  case (Cons i "is")
  from member_loop_Cons_Inr [OF Cons.prems(1)] obtain rnbr randb s1 where
    c: "crossover_loop CR F i rnbr randb [0..<nat d]
          (s\<lparr>rnd := rng_drop (1 + nat d) (rnd s)\<rparr>) = Some (Inr s1)" and
    rest: "member_loop f CR F d is (select f i s1) = Some (Inr s')" by blast
  let ?s0 = "s\<lparr>rnd := rng_drop (1 + nat d) (rnd s)\<rparr>"
  from Cons.prems have p0: "x_ref ?s0 \<noteq> U" "i < length (arrays ?s0 U)" by simp_all
  from crossover_loop_frame [OF c p0] obtain n1 where
    f1: "x_ref s1 = x_ref s" "\<forall>r. r \<noteq> U \<longrightarrow> arrays s1 r = arrays s r"
        "length (arrays s1 U) = length (arrays s U)"
        "\<forall>j. j \<noteq> i \<longrightarrow> arrays s1 U ! j = arrays s U ! j"
        "rnd s1 = rng_drop n1 (rng_drop (1 + nat d) (rnd s))"
    by auto
  let ?s2 = "select f i s1"
  from Cons.prems f1 have p2: "x_ref ?s2 \<noteq> U" "\<forall>i \<in> set is. i < length (arrays ?s2 U)" by simp_all
  from Cons.IH [OF rest p2] obtain n where
    ih: "x_ref s' = x_ref ?s2" "arrays s' X0 = arrays ?s2 X0"
        "length (arrays s' U) = length (arrays ?s2 U)"
        "length (arrays s' XG) = length (arrays ?s2 XG)"
        "\<forall>j. j \<notin> set is \<longrightarrow> arrays s' U ! j = arrays ?s2 U ! j \<and> arrays s' XG ! j = arrays ?s2 XG ! j"
        "rnd s' = rng_drop n (rnd ?s2)"
    by blast
  from ih(6) f1(5) have "rnd s' = rng_drop (1 + nat d + n1 + n) (rnd s)" by simp
  then have "\<exists>n. rnd s' = rng_drop n (rnd s)" by blast
  moreover from ih f1 have "x_ref s' = x_ref s" "arrays s' X0 = arrays s X0"
        "length (arrays s' U) = length (arrays s U)"
        "length (arrays s' XG) = length (arrays s XG)" by simp_all
  moreover from ih(5) f1 have
    "\<forall>j. j \<notin> set (i # is) \<longrightarrow> arrays s' U ! j = arrays s U ! j \<and> arrays s' XG ! j = arrays s XG ! j"
    by simp
  ultimately show ?case by blast
qed


subsection \<open>Evaluating concrete runs\<close>

lemma de_state_of_simps [simp]:
  "arrays (de_state_of a b c r g) X0 = a"
  "arrays (de_state_of a b c r g) U = b"
  "arrays (de_state_of a b c r g) XG = c"
  "x_ref (de_state_of a b c r g) = r"
  "rnd (de_state_of a b c r g) = g"
  by (simp_all add: de_state_of_def)

lemma de_state_of_updates [simp]:
  "(de_state_of a b c r g)\<lparr>rnd := g'\<rparr> = de_state_of a b c r g'"
  "(de_state_of a b c r g)\<lparr>x_ref := r'\<rparr> = de_state_of a b c r' g"
  "(de_state_of a b c r g)\<lparr>arrays := set_elem (arrays (de_state_of a b c r g)) U i k v\<rparr>
     = de_state_of a (b[i := (b ! i)[k := v]]) c r g"
  "(de_state_of a b c r g)\<lparr>arrays := set_elem (arrays (de_state_of a b c r g)) U i k v, rnd := g'\<rparr>
     = de_state_of a (b[i := (b ! i)[k := v]]) c r g'"
  "(de_state_of a b c r g)\<lparr>arrays := set_row (arrays (de_state_of a b c r g)) XG i row\<rparr>
     = de_state_of a b (c[i := row]) r g"
  by (auto simp: de_state_of_def set_elem_def set_row_def fun_eq_iff split: ref.splits)

lemma de_init_eq: "de_init NP d x0 g = de_state_of x0 (zeros NP d) (zeros NP d) X0 g"
  by (simp add: de_init_def de_state_of_def)

lemma zeros_numeral [simp]:
  "zeros 4 1 = [[0], [0], [0], [0]]"
  "zeros 4 2 = [[0, 0], [0, 0], [0, 0], [0, 0]]"
  by (simp_all add: zeros_def eval_nat_numeral)

lemmas run_simps = upt_conv_Cons mutate_at_pos_def pick_rand_idx_def randint3_def randint_def resample.simps
  ok_def at2_def py_get_def np_random_def samples_numeral samples_Suc_eval select_def

subsection \<open>Trial vectors, mutation and selection\<close>

lemma shaped_nth: "shaped NP d a \<Longrightarrow> i < nat NP \<Longrightarrow> length (a ! i) = nat d"
  by (simp add: shaped_def)

lemma shaped_length: "shaped NP d a \<Longrightarrow> length a = nat NP"
  by (simp add: shaped_def)

lemma de_wf_x: "de_wf NP d s \<Longrightarrow> shaped NP d (arrays s (x_ref s))"
  by (cases "x_ref s") (simp_all add: de_wf_def)

lemma pick_rand_idx_sound_nat:
  assumes "pick_rand_idx (int i) (int n) g = Some (Inr ((r1, r2, r3), g'))"
  shows "nat r1 < n \<and> nat r2 < n \<and> nat r3 < n
       \<and> nat r1 \<noteq> nat r2 \<and> nat r1 \<noteq> nat r3 \<and> nat r2 \<noteq> nat r3
       \<and> nat r1 \<noteq> i \<and> nat r2 \<noteq> i \<and> nat r3 \<noteq> i"
proof -
  from pick_rand_idx_sound [OF assms] have
    "0 \<le> r1" "r1 < int n" "0 \<le> r2" "r2 < int n" "0 \<le> r3" "r3 < int n"
    "r1 \<noteq> r2" "r1 \<noteq> r3" "r2 \<noteq> r3" "r1 \<noteq> int i" "r2 \<noteq> int i" "r3 \<noteq> int i"
    by blast+
  then show ?thesis by (auto simp: nat_eq_iff)
qed

lemma crossover_loop_trial:
  assumes "crossover_loop CR F i rnbr randb [0..<nat d] s = Some (Inr s')"
    and "de_wf NP d s" and "i < nat NP"
  shows "\<forall>k < nat d.
           (if int k = rnbr \<or> randb ! k < CR
            then \<exists>r1 r2 r3. r1 < nat NP \<and> r2 < nat NP \<and> r3 < nat NP
                   \<and> r1 \<noteq> r2 \<and> r1 \<noteq> r3 \<and> r2 \<noteq> r3 \<and> r1 \<noteq> i \<and> r2 \<noteq> i \<and> r3 \<noteq> i
                   \<and> arrays s' U ! i ! k =
                       arrays s (x_ref s) ! r1 ! k
                       + F * (arrays s (x_ref s) ! r2 ! k - arrays s (x_ref s) ! r3 ! k)
            else arrays s' U ! i ! k = arrays s (x_ref s) ! i ! k)"
proof (intro allI impI)
  fix k assume k: "k < nat d"
  let ?x = "arrays s (x_ref s)"
  from assms(2) have wf: "x_ref s \<noteq> U" "length (arrays s U) = nat NP"
    "length (arrays s U ! i) = nat d" "length ?x = nat NP"
    using assms(3) de_wf_x [OF assms(2)] by (simp_all add: de_wf_def shaped_def)
  from wf assms(3) have pre: "i < length (arrays s U)"
    "\<forall>k \<in> set [0..<nat d]. k < length (arrays s U ! i)" "sorted_wrt (<) [0..<nat d]"
    by (simp_all add: sorted_wrt_upt)
  from crossover_loop_values [OF assms(1) wf(1) pre] obtain offs ends where
    v: "\<forall>k \<in> set [0..<nat d].
           ((int k = rnbr \<or> randb ! k < CR) \<longrightarrow>
              offs k + 3 \<le> ends k
              \<and> mutate_at_pos ?x F (int i) (int k) (rng_drop (offs k) (rnd s))
                  = Some (Inr (arrays s' U ! i ! k, rng_drop (ends k) (rnd s)))
              \<and> (\<forall>k' \<in> set [0..<nat d]. k' < k \<and> (int k' = rnbr \<or> randb ! k' < CR) \<longrightarrow> ends k' \<le> offs k))
         \<and> (\<not> (int k = rnbr \<or> randb ! k < CR) \<longrightarrow> arrays s' U ! i ! k = ?x ! i ! k)"
    by blast
  from k have kin: "k \<in> set [0..<nat d]" by simp
  show "if int k = rnbr \<or> randb ! k < CR
        then \<exists>r1 r2 r3. r1 < nat NP \<and> r2 < nat NP \<and> r3 < nat NP
               \<and> r1 \<noteq> r2 \<and> r1 \<noteq> r3 \<and> r2 \<noteq> r3 \<and> r1 \<noteq> i \<and> r2 \<noteq> i \<and> r3 \<noteq> i
               \<and> arrays s' U ! i ! k = ?x ! r1 ! k + F * (?x ! r2 ! k - ?x ! r3 ! k)
        else arrays s' U ! i ! k = ?x ! i ! k"
  proof (cases "int k = rnbr \<or> randb ! k < CR")
    case False
    from bspec [OF v kin, THEN conjunct2, THEN mp, OF False] False show ?thesis
      by (simp only: if_False)
  next
    case True
    from bspec [OF v kin, THEN conjunct1, THEN mp, OF True]
    have "mutate_at_pos ?x F (int i) (int k) (rng_drop (offs k) (rnd s))
                  = Some (Inr (arrays s' U ! i ! k, rng_drop (ends k) (rnd s)))" by blast
    from mutate_at_pos_Inr [OF this] obtain r1 r2 r3 where
      p: "pick_rand_idx (int i) (int (length ?x)) (rng_drop (offs k) (rnd s))
            = Some (Inr ((r1, r2, r3), rng_drop (ends k) (rnd s)))" and
      val: "arrays s' U ! i ! k = ?x ! nat r1 ! k + F * (?x ! nat r2 ! k - ?x ! nat r3 ! k)"
      by blast
    from pick_rand_idx_sound_nat [OF p] wf(4) have
      "nat r1 < nat NP \<and> nat r2 < nat NP \<and> nat r3 < nat NP
       \<and> nat r1 \<noteq> nat r2 \<and> nat r1 \<noteq> nat r3 \<and> nat r2 \<noteq> nat r3
       \<and> nat r1 \<noteq> i \<and> nat r2 \<noteq> i \<and> nat r3 \<noteq> i"
      by simp
    with val have "\<exists>r1 r2 r3. r1 < nat NP \<and> r2 < nat NP \<and> r3 < nat NP
               \<and> r1 \<noteq> r2 \<and> r1 \<noteq> r3 \<and> r2 \<noteq> r3 \<and> r1 \<noteq> i \<and> r2 \<noteq> i \<and> r3 \<noteq> i
               \<and> arrays s' U ! i ! k = ?x ! r1 ! k + F * (?x ! r2 ! k - ?x ! r3 ! k)" by blast
    with True show ?thesis by (simp only: if_True)
  qed
qed

lemma crossover_loop_mutation:
  assumes "crossover_loop CR F i rnbr randb [0..<nat d] s = Some (Inr s')"
    and "de_wf NP d s" and "i < nat NP"
  shows "(\<exists>offs ends. \<forall>k < nat d. (int k = rnbr \<or> randb ! k < CR) \<longrightarrow>
            offs k + 3 \<le> ends k
            \<and> (\<exists>r1 r2 r3.
                  pick_rand_idx (int i) (int (length (arrays s (x_ref s)))) (rng_drop (offs k) (rnd s))
                    = Some (Inr ((r1, r2, r3), rng_drop (ends k) (rnd s)))
                  \<and> arrays s' U ! i ! k =
                      arrays s (x_ref s) ! nat r1 ! k
                      + F * (arrays s (x_ref s) ! nat r2 ! k - arrays s (x_ref s) ! nat r3 ! k))
            \<and> (\<forall>k' < k. (int k' = rnbr \<or> randb ! k' < CR) \<longrightarrow> ends k' \<le> offs k))
       \<and> (\<forall>x w j k g v g'. mutate_at_pos x w j (int k) g = Some (Inr (v, g')) \<longrightarrow>
            (\<exists>r1 r2 r3. pick_rand_idx j (int (length x)) g = Some (Inr ((r1, r2, r3), g'))
               \<and> v = x ! nat r1 ! k + w * (x ! nat r2 ! k - x ! nat r3 ! k)))"
proof (rule conjI)
  let ?x = "arrays s (x_ref s)"
  let ?mut = "\<lambda>k. int k = rnbr \<or> randb ! k < CR"
  from assms(2) have wf: "x_ref s \<noteq> U" "length (arrays s U) = nat NP"
    "length (arrays s U ! i) = nat d"
    using assms(3) by (simp_all add: de_wf_def shaped_def)
  from wf assms(3) have pre: "i < length (arrays s U)"
    "\<forall>k \<in> set [0..<nat d]. k < length (arrays s U ! i)" "sorted_wrt (<) [0..<nat d]"
    by (simp_all add: sorted_wrt_upt)
  from crossover_loop_values [OF assms(1) wf(1) pre] obtain offs ends where
    v: "\<forall>k \<in> set [0..<nat d].
           (?mut k \<longrightarrow>
              offs k + 3 \<le> ends k
              \<and> mutate_at_pos ?x F (int i) (int k) (rng_drop (offs k) (rnd s))
                  = Some (Inr (arrays s' U ! i ! k, rng_drop (ends k) (rnd s)))
              \<and> (\<forall>k' \<in> set [0..<nat d]. k' < k \<and> ?mut k' \<longrightarrow> ends k' \<le> offs k))
         \<and> (\<not> ?mut k \<longrightarrow> arrays s' U ! i ! k = ?x ! i ! k)"
    by blast
  have "offs k + 3 \<le> ends k
            \<and> (\<exists>r1 r2 r3.
                  pick_rand_idx (int i) (int (length ?x)) (rng_drop (offs k) (rnd s))
                    = Some (Inr ((r1, r2, r3), rng_drop (ends k) (rnd s)))
                  \<and> arrays s' U ! i ! k = ?x ! nat r1 ! k + F * (?x ! nat r2 ! k - ?x ! nat r3 ! k))
            \<and> (\<forall>k' < k. ?mut k' \<longrightarrow> ends k' \<le> offs k)"
    if k: "k < nat d" and m: "?mut k" for k
  proof -
    from k have kin: "k \<in> set [0..<nat d]" by simp
    from bspec [OF v kin, THEN conjunct1, THEN mp, OF m] have
      a: "offs k + 3 \<le> ends k" and
      b: "mutate_at_pos ?x F (int i) (int k) (rng_drop (offs k) (rnd s))
                  = Some (Inr (arrays s' U ! i ! k, rng_drop (ends k) (rnd s)))" and
      c: "\<forall>k' \<in> set [0..<nat d]. k' < k \<and> ?mut k' \<longrightarrow> ends k' \<le> offs k"
      by blast+
    from c k have c': "\<forall>k' < k. ?mut k' \<longrightarrow> ends k' \<le> offs k" by simp
    from mutate_at_pos_Inr [OF b] a c' show ?thesis by blast
  qed
  then show "\<exists>offs ends. \<forall>k < nat d. ?mut k \<longrightarrow>
            offs k + 3 \<le> ends k
            \<and> (\<exists>r1 r2 r3.
                  pick_rand_idx (int i) (int (length ?x)) (rng_drop (offs k) (rnd s))
                    = Some (Inr ((r1, r2, r3), rng_drop (ends k) (rnd s)))
                  \<and> arrays s' U ! i ! k = ?x ! nat r1 ! k + F * (?x ! nat r2 ! k - ?x ! nat r3 ! k))
            \<and> (\<forall>k' < k. ?mut k' \<longrightarrow> ends k' \<le> offs k)"
    by blast
next
  show "\<forall>x w j k g v g'. mutate_at_pos x w j (int k) g = Some (Inr (v, g')) \<longrightarrow>
            (\<exists>r1 r2 r3. pick_rand_idx j (int (length x)) g = Some (Inr ((r1, r2, r3), g'))
               \<and> v = x ! nat r1 ! k + w * (x ! nat r2 ! k - x ! nat r3 ! k))"
    using mutate_at_pos_Inr by blast
qed

lemma generation_Inr:
  assumes "generation f CR F NP d s = Some (Inr s')"
  shows "\<exists>s1. member_loop f CR F d [0..<nat NP] s = Some (Inr s1) \<and> s' = s1\<lparr>x_ref := XG\<rparr>"
  using assms by (auto simp: generation_def bind_res_eq_ok ok_def)


lemma generation_example:
  "generation hd (9 / 10) 1 4 1
     (de_state_of [[8], [4], [2], [1]] [[- 1], [- 5], [5], [10]] [[- 1], [- 5], [2], [1]] XG
        (rng_of [0, 0, 1, 2, 3,  0, 0, 0, 2, 3,  0, 0, 0, 1, 3,  0, 0, 0, 1, 2]))
   = Some (Inr (de_state_of [[8], [4], [2], [1]] [[- 4], [- 3], [- 10], [1]]
        [[- 4], [- 5], [- 10], [1]] XG (rng_of [])))"
  by (simp add: generation_def run_simps del: samples.simps(2))


subsection \<open>Every generation returns on a fair generator\<close>

lemma mutate_at_pos_returns:
  assumes "4 \<le> length x" and "fair (int (length x)) g" and "\<forall>row \<in> set x. k < length row"
  shows "\<exists>v n. mutate_at_pos x F i (int k) g = Some (Inr (v, rng_drop n g))"
proof -
  from assms(1) have "4 \<le> int (length x)" by simp
  from pick_rand_idx_returns [OF this assms(2), of i] obtain r n where
    p: "pick_rand_idx i (int (length x)) g = Some (Inr (r, rng_drop n g))" by blast
  obtain r1 r2 r3 where r: "r = (r1, r2, r3)" by (cases r) auto
  from pick_rand_idx_sound [OF p [unfolded r]] have
    rg: "0 \<le> r1" "r1 < int (length x)" "0 \<le> r2" "r2 < int (length x)"
        "0 \<le> r3" "r3 < int (length x)" by blast+
  then have "nat r1 < length x" "nat r2 < length x" "nat r3 < length x" by simp_all
  with assms(3) have "k < length (x ! nat r1)" "k < length (x ! nat r2)" "k < length (x ! nat r3)"
    by simp_all
  with rg have "at2 x r1 (int k) = Inr (x ! nat r1 ! k)" "at2 x r2 (int k) = Inr (x ! nat r2 ! k)"
    "at2 x r3 (int k) = Inr (x ! nat r3 ! k)"
    by (simp_all add: at2_Inr)
  with p r have "mutate_at_pos x F i (int k) g
      = Some (Inr (x ! nat r1 ! k + F * (x ! nat r2 ! k - x ! nat r3 ! k), rng_drop n g))"
    by (simp add: mutate_at_pos_def ok_def)
  then show ?thesis by blast
qed

lemma crossover_loop_returns:
  assumes "x_ref s \<noteq> U" and "4 \<le> NP" and "shaped NP d (arrays s (x_ref s))"
    and "\<forall>k \<in> set ks. k < nat d" and "fair NP (rnd s)"
  shows "\<exists>s'. crossover_loop CR F i rnbr randb ks s = Some (Inr s')"
  using assms
proof (induction ks arbitrary: s)
  case Nil
  then show ?case by (simp add: ok_def)
next
  case (Cons k ks)
  let ?x = "arrays s (x_ref s)"
  from Cons.prems(2,3) have len: "int (length ?x) = NP" "4 \<le> length ?x"
    by (simp_all add: shaped_def)
  show ?case
  proof (cases "int k = rnbr \<or> randb ! k < CR")
    case True
    from Cons.prems(3,4) have "\<forall>row \<in> set ?x. k < length row" by (simp add: shaped_def)
    from mutate_at_pos_returns [OF len(2) _ this, of "rnd s" F "int i"] Cons.prems(5) len(1)
    obtain v n where
      m: "mutate_at_pos ?x F (int i) (int k) (rnd s) = Some (Inr (v, rng_drop n (rnd s)))"
      by auto
    let ?s1 = "s\<lparr>arrays := set_elem (arrays s) U i k v, rnd := rng_drop n (rnd s)\<rparr>"
    from Cons.prems have "x_ref ?s1 \<noteq> U" "shaped NP d (arrays ?s1 (x_ref ?s1))"
      "\<forall>k \<in> set ks. k < nat d" "fair NP (rnd ?s1)"
      by (simp_all add: fair_drop)
    from Cons.IH [OF this(1) Cons.prems(2) this(2-4)] obtain s' where
      "crossover_loop CR F i rnbr randb ks ?s1 = Some (Inr s')" by blast
    with True m show ?thesis by simp
  next
    case False
    let ?s1 = "s\<lparr>arrays := set_elem (arrays s) U i k (?x ! i ! k)\<rparr>"
    from Cons.prems have "x_ref ?s1 \<noteq> U" "shaped NP d (arrays ?s1 (x_ref ?s1))"
      "\<forall>k \<in> set ks. k < nat d" "fair NP (rnd ?s1)"
      by simp_all
    from Cons.IH [OF this(1) Cons.prems(2) this(2-4)] obtain s' where
      "crossover_loop CR F i rnbr randb ks ?s1 = Some (Inr s')" by blast
    with False show ?thesis by simp
  qed
qed

lemma shaped_same_lengths:
  assumes "shaped NP d a" and "length a' = length a"
    and "\<forall>j < length a. length (a' ! j) = length (a ! j)"
  shows "shaped NP d a'"
  using assms unfolding shaped_def all_set_conv_all_nth by simp

lemma crossover_loop_wf:
  assumes "crossover_loop CR F i rnbr randb ks s = Some (Inr s')"
    and "de_wf NP d s" and "i < nat NP"
  shows "de_wf NP d s'"
proof -
  from assms(2,3) have pre: "x_ref s \<noteq> U" "i < length (arrays s U)"
    by (simp_all add: de_wf_def shaped_def)
  note fr = crossover_loop_frame [OF assms(1) pre]
  from fr have x: "x_ref s' = x_ref s" by (rule conjunct1)
  from fr have oth: "arrays s' X0 = arrays s X0" "arrays s' XG = arrays s XG" by simp_all
  from fr have len: "length (arrays s' U) = length (arrays s U)" by simp
  from fr have rows: "\<forall>j. j \<noteq> i \<longrightarrow> arrays s' U ! j = arrays s U ! j"
    and rowi: "length (arrays s' U ! i) = length (arrays s U ! i)" by simp_all
  have "length (arrays s' U ! j) = length (arrays s U ! j)" for j
    using rows rowi by (cases "j = i") simp_all
  then have all: "\<forall>j < length (arrays s U). length (arrays s' U ! j) = length (arrays s U ! j)"
    by simp
  from assms(2) have "shaped NP d (arrays s U)" by (simp add: de_wf_def)
  from shaped_same_lengths [OF this len all] have "shaped NP d (arrays s' U)" .
  with assms(2) x oth show ?thesis by (simp add: de_wf_def)
qed

lemma shaped_update: "shaped NP d a \<Longrightarrow> length row = nat d \<Longrightarrow> shaped NP d (a[i := row])"
  by (auto simp: shaped_def dest!: set_update_subset_insert [THEN subsetD])

lemma select_wf:
  assumes "de_wf NP d s" and "i < nat NP"
  shows "de_wf NP d (select f i s)"
proof -
  from assms have "length (arrays s U ! i) = nat d" "length (arrays s (x_ref s) ! i) = nat d"
    using de_wf_x [OF assms(1)] by (simp_all add: de_wf_def shaped_def)
  with assms(1) show ?thesis by (simp add: de_wf_def shaped_update)
qed

lemma member_loop_wf:
  assumes "member_loop f CR F d is s = Some (Inr s')"
    and "de_wf NP d s" and "\<forall>i \<in> set is. i < nat NP"
  shows "de_wf NP d s'"
  using assms
proof (induction "is" arbitrary: s)
  case Nil
  then show ?case by (simp add: ok_def)
next
  case (Cons i "is")
  from member_loop_Cons_Inr [OF Cons.prems(1)] obtain rnbr randb s1 where
    c: "crossover_loop CR F i rnbr randb [0..<nat d]
          (s\<lparr>rnd := rng_drop (1 + nat d) (rnd s)\<rparr>) = Some (Inr s1)" and
    rest: "member_loop f CR F d is (select f i s1) = Some (Inr s')" by blast
  from Cons.prems(2) have "de_wf NP d (s\<lparr>rnd := rng_drop (1 + nat d) (rnd s)\<rparr>)"
    by (simp add: de_wf_def)
  from crossover_loop_wf [OF c this] Cons.prems(3) have "de_wf NP d s1" by simp
  with Cons.prems(3) have "de_wf NP d (select f i s1)" by (simp add: select_wf)
  from Cons.IH [OF rest this] Cons.prems(3) show ?case by simp
qed

lemma member_loop_returns:
  assumes "de_wf NP d s" and "4 \<le> NP" and "0 < d" and "fair NP (rnd s)"
    and "\<forall>i \<in> set is. i < nat NP"
  shows "\<exists>s'. member_loop f CR F d is s = Some (Inr s')"
  using assms
proof (induction "is" arbitrary: s)
  case Nil
  then show ?case by (simp add: ok_def)
next
  case (Cons i "is")
  let ?rnbr = "int (rnd s 0) mod d"
  let ?randb = "fst (samples (nat d) (rng_drop 1 (rnd s)))"
  let ?s0 = "s\<lparr>rnd := rng_drop (1 + nat d) (rnd s)\<rparr>"
  from Cons.prems(1) have wf0: "de_wf NP d ?s0" by (simp add: de_wf_def)
  from wf0 have x0: "x_ref ?s0 \<noteq> U" by (simp add: de_wf_def)
  from Cons.prems(4) have "fair NP (rnd ?s0)" by (simp add: fair_drop)
  from crossover_loop_returns [OF x0 Cons.prems(2) de_wf_x [OF wf0] _ this,
      of "[0..<nat d]" CR F i ?rnbr ?randb]
  obtain s1 where
    c: "crossover_loop CR F i ?rnbr ?randb [0..<nat d] ?s0 = Some (Inr s1)" by auto
  from Cons.prems(5) have i: "i < nat NP" by simp
  from crossover_loop_wf [OF c wf0 i] have wf1: "de_wf NP d s1" .
  from wf0 i have "i < length (arrays ?s0 U)" by (simp add: de_wf_def shaped_def)
  from crossover_loop_frame [OF c x0 this] obtain n where "rnd s1 = rng_drop n (rnd ?s0)" by blast
  with Cons.prems(4) have f1: "fair NP (rnd (select f i s1))" by (simp add: fair_drop)
  from Cons.IH [OF select_wf [OF wf1 i] Cons.prems(2,3) f1] Cons.prems(5) obtain s' where
    "member_loop f CR F d is (select f i s1) = Some (Inr s')" by auto
  with c Cons.prems(3) show ?case
    by (simp add: randint_def np_random_def case_prod_beta)
qed

lemma generation_returns:
  assumes "de_wf NP d s" and "4 \<le> NP" and "0 < d" and "fair NP (rnd s)"
  shows "\<exists>s'. generation f CR F NP d s = Some (Inr s') \<and> de_wf NP d s' \<and> fair NP (rnd s')"
proof -
  from member_loop_returns [OF assms, of "[0..<nat NP]" f CR F] obtain s1 where
    m: "member_loop f CR F d [0..<nat NP] s = Some (Inr s1)" by auto
  from member_loop_wf [OF m assms(1)] have wf1: "de_wf NP d s1" by simp
  from assms(1) have "x_ref s \<noteq> U" "\<forall>i \<in> set [0..<nat NP]. i < length (arrays s U)"
    by (simp_all add: de_wf_def shaped_def)
  from member_loop_frame [OF m this] obtain n where "rnd s1 = rng_drop n (rnd s)" by blast
  with assms(4) have "fair NP (rnd (s1\<lparr>x_ref := XG\<rparr>))" by (simp add: fair_drop)
  moreover from wf1 have "de_wf NP d (s1\<lparr>x_ref := XG\<rparr>)" by (simp add: de_wf_def)
  moreover from m have "generation f CR F NP d s = Some (Inr (s1\<lparr>x_ref := XG\<rparr>))"
    by (simp add: generation_def ok_def)
  ultimately show ?thesis by blast
qed

lemma generation_wf:
  assumes "generation f CR F NP d s = Some (Inr s')" and "de_wf NP d s"
  shows "de_wf NP d s' \<and> x_ref s' = XG"
proof -
  from generation_Inr [OF assms(1)] obtain s1 where
    m: "member_loop f CR F d [0..<nat NP] s = Some (Inr s1)" and s': "s' = s1\<lparr>x_ref := XG\<rparr>"
    by blast
  from member_loop_wf [OF m assms(2)] have "de_wf NP d s1" by simp
  with s' show ?thesis by (simp add: de_wf_def)
qed

subsection \<open>Building a trial vector on a fair generator\<close>

lemma member_loop_trial_step:
  "member_loop f CR F d (i # is) s
     = bind_res (trial_step CR F d i s) (\<lambda>s'. member_loop f CR F d is (select f i s'))"
  by (simp add: trial_step_def bind_res_def split: option.splits sum.splits prod.splits)

lemma trial_step_unfold:
  assumes "0 < d"
  shows "randint 0 d (rnd s) = Inr (int (rnd s 0) mod d, rng_drop 1 (rnd s))"
    and "np_random d (rng_drop 1 (rnd s))
           = Inr (fst (samples (nat d) (rng_drop 1 (rnd s))), rng_drop (1 + nat d) (rnd s))"
    and "trial_step CR F d i s
           = crossover_loop CR F i (int (rnd s 0) mod d) (fst (samples (nat d) (rng_drop 1 (rnd s))))
               [0..<nat d] (s\<lparr>rnd := rng_drop (1 + nat d) (rnd s)\<rparr>)"
proof -
  from assms show a: "randint 0 d (rnd s) = Inr (int (rnd s 0) mod d, rng_drop 1 (rnd s))"
    by (simp add: randint_def)
  have "samples (nat d) (rng_drop 1 (rnd s))
      = (fst (samples (nat d) (rng_drop 1 (rnd s))), rng_drop (1 + nat d) (rnd s))"
    by (simp add: prod_eq_iff)
  with assms show b: "np_random d (rng_drop 1 (rnd s))
           = Inr (fst (samples (nat d) (rng_drop 1 (rnd s))), rng_drop (1 + nat d) (rnd s))"
    by (simp add: np_random_def)
  from a b show "trial_step CR F d i s
           = crossover_loop CR F i (int (rnd s 0) mod d) (fst (samples (nat d) (rng_drop 1 (rnd s))))
               [0..<nat d] (s\<lparr>rnd := rng_drop (1 + nat d) (rnd s)\<rparr>)"
    by (simp add: trial_step_def)
qed

text \<open>
  Claim C4, as amended. For \<open>NP \<ge> 4\<close>, \<open>d > 0\<close> and a target index \<open>i\<close> in
  \<open>[0, NP)\<close>, on a fair generator the construction of the trial vector returns: it
  draws \<open>rnbr\<close> in \<open>[0, d)\<close> and the \<open>d\<close> samples \<open>randb\<close>, leaves the population
  as it was, and for every dimension \<open>k\<close> sets \<open>u[i][k]\<close> to the mutated value
  \<open>x[r1][k] + F * (x[r2][k] - x[r3][k])\<close>, with donors that are in range, pairwise
  distinct and different from \<open>i\<close>, exactly when \<open>k = rnbr\<close> or \<open>randb[k] < CR\<close>, and
  to \<open>x[i][k]\<close> otherwise. In particular the component at dimension \<open>rnbr\<close> always
  comes from mutation.
\<close>

theorem trial_vector_construction:
  assumes "de_wf NP d s" and "i < nat NP" and "4 \<le> NP" and "0 < d" and "fair NP (rnd s)"
  shows "\<exists>s' rnbr randb.
           trial_step CR F d i s = Some (Inr s')
         \<and> randint 0 d (rnd s) = Inr (rnbr, rng_drop 1 (rnd s))
         \<and> np_random d (rng_drop 1 (rnd s)) = Inr (randb, rng_drop (1 + nat d) (rnd s))
         \<and> 0 \<le> rnbr \<and> rnbr < d
         \<and> arrays s' (x_ref s') = arrays s (x_ref s)
         \<and> (\<forall>k < nat d.
               (if int k = rnbr \<or> randb ! k < CR
                then \<exists>r1 r2 r3. r1 < nat NP \<and> r2 < nat NP \<and> r3 < nat NP
                       \<and> r1 \<noteq> r2 \<and> r1 \<noteq> r3 \<and> r2 \<noteq> r3 \<and> r1 \<noteq> i \<and> r2 \<noteq> i \<and> r3 \<noteq> i
                       \<and> arrays s' U ! i ! k =
                           arrays s (x_ref s) ! r1 ! k
                           + F * (arrays s (x_ref s) ! r2 ! k - arrays s (x_ref s) ! r3 ! k)
                else arrays s' U ! i ! k = arrays s (x_ref s) ! i ! k))
         \<and> (\<exists>r1 r2 r3. r1 < nat NP \<and> r2 < nat NP \<and> r3 < nat NP
               \<and> r1 \<noteq> r2 \<and> r1 \<noteq> r3 \<and> r2 \<noteq> r3 \<and> r1 \<noteq> i \<and> r2 \<noteq> i \<and> r3 \<noteq> i
               \<and> arrays s' U ! i ! nat rnbr =
                   arrays s (x_ref s) ! r1 ! nat rnbr
                   + F * (arrays s (x_ref s) ! r2 ! nat rnbr - arrays s (x_ref s) ! r3 ! nat rnbr))"
proof -
  let ?rnbr = "int (rnd s 0) mod d"
  let ?randb = "fst (samples (nat d) (rng_drop 1 (rnd s)))"
  let ?s0 = "s\<lparr>rnd := rng_drop (1 + nat d) (rnd s)\<rparr>"
  let ?x = "arrays s (x_ref s)"
  note u = trial_step_unfold [OF assms(4)]
  from assms(1) have wf0: "de_wf NP d ?s0" by (simp add: de_wf_def)
  then have x0: "x_ref ?s0 \<noteq> U" by (simp add: de_wf_def)
  from assms(5) have "fair NP (rnd ?s0)" by (simp add: fair_drop)
  from crossover_loop_returns [OF x0 assms(3) de_wf_x [OF wf0] _ this,
      of "[0..<nat d]" CR F i ?rnbr ?randb]
  obtain s' where c: "crossover_loop CR F i ?rnbr ?randb [0..<nat d] ?s0 = Some (Inr s')"
    by auto
  from wf0 assms(2) have "i < length (arrays ?s0 U)" by (simp add: de_wf_def shaped_def)
  from crossover_loop_frame [OF c x0 this] have
    same: "arrays s' (x_ref s') = ?x" by (cases "x_ref s") (use x0 in simp_all)
  from assms(4) have rg: "0 \<le> ?rnbr" "?rnbr < d" by simp_all
  have rec: "arrays ?s0 = arrays s" "x_ref ?s0 = x_ref s" by simp_all
  from crossover_loop_trial [OF c wf0 assms(2)] have
    each: "\<forall>k < nat d.
               (if int k = ?rnbr \<or> ?randb ! k < CR
                then \<exists>r1 r2 r3. r1 < nat NP \<and> r2 < nat NP \<and> r3 < nat NP
                       \<and> r1 \<noteq> r2 \<and> r1 \<noteq> r3 \<and> r2 \<noteq> r3 \<and> r1 \<noteq> i \<and> r2 \<noteq> i \<and> r3 \<noteq> i
                       \<and> arrays s' U ! i ! k = ?x ! r1 ! k + F * (?x ! r2 ! k - ?x ! r3 ! k)
                else arrays s' U ! i ! k = ?x ! i ! k)"
    by (simp only: rec)
  from rg have "nat ?rnbr < nat d" "int (nat ?rnbr) = ?rnbr" by simp_all
  with each have
    at: "\<exists>r1 r2 r3. r1 < nat NP \<and> r2 < nat NP \<and> r3 < nat NP
               \<and> r1 \<noteq> r2 \<and> r1 \<noteq> r3 \<and> r2 \<noteq> r3 \<and> r1 \<noteq> i \<and> r2 \<noteq> i \<and> r3 \<noteq> i
               \<and> arrays s' U ! i ! nat ?rnbr =
                   ?x ! r1 ! nat ?rnbr + F * (?x ! r2 ! nat ?rnbr - ?x ! r3 ! nat ?rnbr)"
    by (metis (no_types, lifting))
  from u(3) [of CR F i s] c have t: "trial_step CR F d i s = Some (Inr s')" by simp
  from t u(1,2) [of s] rg same each at show ?thesis by blast
qed

lemma trial_step_example:
  "trial_step (1 / 2) 1 2 0
     (de_state_of [[1, 10], [2, 20], [3, 30], [4, 40]] (zeros 4 2) (zeros 4 2) X0
        (rng_cycle [0, 0, 6755399441055744, 3, 2, 1]))
   = Some (Inr (de_state_of [[1, 10], [2, 20], [3, 30], [4, 40]] [[5, 10], [0, 0], [0, 0], [0, 0]]
        (zeros 4 2) X0 (rng_cycle [0, 0, 6755399441055744, 3, 2, 1])))"
  by (simp add: trial_step_def run_simps del: samples.simps(2))

lemma de_wf_examples:
  "de_wf 4 2 (de_state_of [[1, 10], [2, 20], [3, 30], [4, 40]] (zeros 4 2) (zeros 4 2) X0 g)"
  by (simp add: de_wf_def shaped_def)

theorem trial_vector_construction_witness:
  "de_wf 4 2 (de_state_of [[1, 10], [2, 20], [3, 30], [4, 40]] (zeros 4 2) (zeros 4 2) X0
        (rng_cycle [0, 0, 6755399441055744, 3, 2, 1]))
   \<and> (0::nat) < nat 4 \<and> (4::int) \<le> 4 \<and> (0::int) < 2
   \<and> fair 4 (rng_cycle [0, 0, 6755399441055744, 3, 2, 1])
   \<and> trial_step (1 / 2) 1 2 0
       (de_state_of [[1, 10], [2, 20], [3, 30], [4, 40]] (zeros 4 2) (zeros 4 2) X0
          (rng_cycle [0, 0, 6755399441055744, 3, 2, 1]))
     = Some (Inr (de_state_of [[1, 10], [2, 20], [3, 30], [4, 40]] [[5, 10], [0, 0], [0, 0], [0, 0]]
          (zeros 4 2) X0 (rng_cycle [0, 0, 6755399441055744, 3, 2, 1])))
   \<and> (\<exists>r1 r2 r3. r1 < nat 4 \<and> r2 < nat 4 \<and> r3 < nat 4
         \<and> r1 \<noteq> r2 \<and> r1 \<noteq> r3 \<and> r2 \<noteq> r3 \<and> r1 \<noteq> 0 \<and> r2 \<noteq> 0 \<and> r3 \<noteq> 0
         \<and> (5::real) = [[1, 10], [2, 20], [3, 30], [4, 40]] ! r1 ! 0
              + 1 * ([[1, 10], [2, 20], [3, 30], [4, 40]] ! r2 ! 0 - [[1, 10], [2, 20], [3, 30], [4, 40]] ! r3 ! 0))
   \<and> [[5, 10], [0, 0], [0, 0], [0, 0]] ! 0 ! 1 = [[1, 10 :: real], [2, 20], [3, 30], [4, 40]] ! 0 ! 1"
proof -
  have h: "(0::nat) < nat 4" "(4::int) \<le> 4" "(0::int) < 2" by simp_all
  have f4: "fair 4 (rnd (de_state_of [[1, 10], [2, 20], [3, 30], [4, 40]] (zeros 4 2) (zeros 4 2) X0
        (rng_cycle [0, 0, 6755399441055744, 3, 2, 1])))"
    using fair_cycle_examples(1) by simp
  note t = trial_vector_construction [OF de_wf_examples h f4, of "1 / 2" 1]
  from t obtain s' rnbr randb where
    r: "trial_step (1 / 2) 1 2 0
         (de_state_of [[1, 10], [2, 20], [3, 30], [4, 40]] (zeros 4 2) (zeros 4 2) X0
            (rng_cycle [0, 0, 6755399441055744, 3, 2, 1])) = Some (Inr s')" and
    rn: "randint 0 2 (rnd (de_state_of [[1, 10], [2, 20], [3, 30], [4, 40]] (zeros 4 2) (zeros 4 2) X0
            (rng_cycle [0, 0, 6755399441055744, 3, 2, 1])))
          = Inr (rnbr, rng_drop 1 (rnd (de_state_of [[1, 10], [2, 20], [3, 30], [4, 40]] (zeros 4 2)
               (zeros 4 2) X0 (rng_cycle [0, 0, 6755399441055744, 3, 2, 1]))))" and
    m: "\<exists>r1 r2 r3. r1 < nat 4 \<and> r2 < nat 4 \<and> r3 < nat 4
         \<and> r1 \<noteq> r2 \<and> r1 \<noteq> r3 \<and> r2 \<noteq> r3 \<and> r1 \<noteq> 0 \<and> r2 \<noteq> 0 \<and> r3 \<noteq> 0
         \<and> arrays s' U ! 0 ! nat rnbr =
             arrays (de_state_of [[1, 10], [2, 20], [3, 30], [4, 40]] (zeros 4 2) (zeros 4 2) X0
                (rng_cycle [0, 0, 6755399441055744, 3, 2, 1]))
              (x_ref (de_state_of [[1, 10], [2, 20], [3, 30], [4, 40]] (zeros 4 2) (zeros 4 2) X0
                (rng_cycle [0, 0, 6755399441055744, 3, 2, 1]))) ! r1 ! nat rnbr
             + 1 * (arrays (de_state_of [[1, 10], [2, 20], [3, 30], [4, 40]] (zeros 4 2) (zeros 4 2) X0
                (rng_cycle [0, 0, 6755399441055744, 3, 2, 1]))
              (x_ref (de_state_of [[1, 10], [2, 20], [3, 30], [4, 40]] (zeros 4 2) (zeros 4 2) X0
                (rng_cycle [0, 0, 6755399441055744, 3, 2, 1]))) ! r2 ! nat rnbr
               - arrays (de_state_of [[1, 10], [2, 20], [3, 30], [4, 40]] (zeros 4 2) (zeros 4 2) X0
                (rng_cycle [0, 0, 6755399441055744, 3, 2, 1]))
              (x_ref (de_state_of [[1, 10], [2, 20], [3, 30], [4, 40]] (zeros 4 2) (zeros 4 2) X0
                (rng_cycle [0, 0, 6755399441055744, 3, 2, 1]))) ! r3 ! nat rnbr)"
    by blast
  from rn have rnbr: "rnbr = 0" by (simp add: randint_def)
  from r trial_step_example have
    s': "s' = de_state_of [[1, 10], [2, 20], [3, 30], [4, 40]] [[5, 10], [0, 0], [0, 0], [0, 0]]
          (zeros 4 2) X0 (rng_cycle [0, 0, 6755399441055744, 3, 2, 1])" by simp
  from m have "\<exists>r1 r2 r3. r1 < nat 4 \<and> r2 < nat 4 \<and> r3 < nat 4
         \<and> r1 \<noteq> r2 \<and> r1 \<noteq> r3 \<and> r2 \<noteq> r3 \<and> r1 \<noteq> 0 \<and> r2 \<noteq> 0 \<and> r3 \<noteq> 0
         \<and> (5::real) = [[1, 10], [2, 20], [3, 30], [4, 40]] ! r1 ! 0
              + 1 * ([[1, 10], [2, 20], [3, 30], [4, 40]] ! r2 ! 0 - [[1, 10], [2, 20], [3, 30], [4, 40]] ! r3 ! 0)"
    unfolding s' rnbr by simp
  with de_wf_examples h fair_cycle_examples(1) trial_step_example show ?thesis by simp
qed

text \<open>
  Claim C4 as stated fails: a trial vector can be identical to its target. With
  \<open>F = 1\<close>, the population \<open>[1], [2], [3], [4]\<close> and the donors \<open>0, 3, 2\<close> drawn for
  target \<open>1\<close> on a fair generator, the mutated component is \<open>1 + (4 - 3) = 2\<close>, the
  component of the target.
\<close>

theorem trial_equals_target_counterexample:
  "trial_step (9 / 10) 1 1 1
     (de_state_of [[1], [2], [3], [4]] (zeros 4 1) (zeros 4 1) X0 (rng_cycle [0, 0, 0, 3, 2, 1]))
   = Some (Inr (de_state_of [[1], [2], [3], [4]] [[0], [2], [0], [0]] (zeros 4 1) X0
        (rng_cycle [1, 0, 0, 0, 3, 2])))
   \<and> arrays (de_state_of [[1], [2], [3], [4]] [[0], [2], [0], [0]] (zeros 4 1) X0
        (rng_cycle [1, 0, 0, 0, 3, 2])) U ! 1
     = arrays (de_state_of [[1], [2], [3], [4]] (zeros 4 1) (zeros 4 1) X0
        (rng_cycle [0, 0, 0, 3, 2, 1])) X0 ! 1"
  by (simp add: trial_step_def run_simps del: samples.simps(2))

text \<open>
  Claim C6. For \<open>NP \<ge> 4\<close> on a fair generator the loop over the dimensions returns,
  and every mutated dimension \<open>k\<close> of \<open>u[i]\<close> has a call of \<open>pick_rand_idx\<close> of its
  own: the call reads the generator from an offset \<open>offs k\<close> up to \<open>ends k\<close>, at least
  three draws later, the segments of two mutated dimensions do not overlap and follow the
  order of the dimensions, and the component is
  \<open>x[r1][k] + F * (x[r2][k] - x[r3][k])\<close> for the donors this call returns.
  \<open>mutate_at_pos\<close> itself, on a population of at least four members and a fair
  generator, returns exactly this value for the donors of one call of \<open>pick_rand_idx\<close>,
  with no clamping to any bounds; and whenever it returns, this is what it returns.
\<close>

theorem mutation_redrawn_per_dimension:
  assumes "de_wf NP d s" and "i < nat NP" and "4 \<le> NP" and "fair NP (rnd s)"
  shows "(\<exists>s' offs ends.
            crossover_loop CR F i rnbr randb [0..<nat d] s = Some (Inr s')
            \<and> (\<forall>k < nat d. (int k = rnbr \<or> randb ! k < CR) \<longrightarrow>
                  offs k + 3 \<le> ends k
                  \<and> (\<exists>r1 r2 r3.
                        pick_rand_idx (int i) (int (length (arrays s (x_ref s))))
                            (rng_drop (offs k) (rnd s))
                          = Some (Inr ((r1, r2, r3), rng_drop (ends k) (rnd s)))
                        \<and> arrays s' U ! i ! k =
                            arrays s (x_ref s) ! nat r1 ! k
                            + F * (arrays s (x_ref s) ! nat r2 ! k - arrays s (x_ref s) ! nat r3 ! k))
                  \<and> (\<forall>k' < k. (int k' = rnbr \<or> randb ! k' < CR) \<longrightarrow> ends k' \<le> offs k)))
       \<and> (\<forall>x w j k g. 4 \<le> length x \<and> fair (int (length x)) g \<and> (\<forall>row \<in> set x. k < length row) \<longrightarrow>
            (\<exists>v g' r1 r2 r3. mutate_at_pos x w j (int k) g = Some (Inr (v, g'))
               \<and> pick_rand_idx j (int (length x)) g = Some (Inr ((r1, r2, r3), g'))
               \<and> v = x ! nat r1 ! k + w * (x ! nat r2 ! k - x ! nat r3 ! k)))
       \<and> (\<forall>x w j k g v g'. mutate_at_pos x w j (int k) g = Some (Inr (v, g')) \<longrightarrow>
            (\<exists>r1 r2 r3. pick_rand_idx j (int (length x)) g = Some (Inr ((r1, r2, r3), g'))
               \<and> v = x ! nat r1 ! k + w * (x ! nat r2 ! k - x ! nat r3 ! k)))"
proof (intro conjI)
  from assms(1) have x0: "x_ref s \<noteq> U" by (simp add: de_wf_def)
  from crossover_loop_returns [OF x0 assms(3) de_wf_x [OF assms(1)] _ assms(4),
      of "[0..<nat d]" CR F i rnbr randb]
  obtain s' where c: "crossover_loop CR F i rnbr randb [0..<nat d] s = Some (Inr s')" by auto
  from crossover_loop_mutation [OF c assms(1,2), THEN conjunct1] c
  show "\<exists>s' offs ends.
            crossover_loop CR F i rnbr randb [0..<nat d] s = Some (Inr s')
            \<and> (\<forall>k < nat d. (int k = rnbr \<or> randb ! k < CR) \<longrightarrow>
                  offs k + 3 \<le> ends k
                  \<and> (\<exists>r1 r2 r3.
                        pick_rand_idx (int i) (int (length (arrays s (x_ref s))))
                            (rng_drop (offs k) (rnd s))
                          = Some (Inr ((r1, r2, r3), rng_drop (ends k) (rnd s)))
                        \<and> arrays s' U ! i ! k =
                            arrays s (x_ref s) ! nat r1 ! k
                            + F * (arrays s (x_ref s) ! nat r2 ! k - arrays s (x_ref s) ! nat r3 ! k))
                  \<and> (\<forall>k' < k. (int k' = rnbr \<or> randb ! k' < CR) \<longrightarrow> ends k' \<le> offs k))"
    by blast
next
  show "\<forall>x w j k g. 4 \<le> length x \<and> fair (int (length x)) g \<and> (\<forall>row \<in> set x. k < length row) \<longrightarrow>
            (\<exists>v g' r1 r2 r3. mutate_at_pos x w j (int k) g = Some (Inr (v, g'))
               \<and> pick_rand_idx j (int (length x)) g = Some (Inr ((r1, r2, r3), g'))
               \<and> v = x ! nat r1 ! k + w * (x ! nat r2 ! k - x ! nat r3 ! k))"
  proof (intro allI impI, elim conjE)
    fix x :: population and w :: real and j :: int and k :: nat and g :: rng
    assume a: "4 \<le> length x" "fair (int (length x)) g" "\<forall>row \<in> set x. k < length row"
    from mutate_at_pos_returns [OF a, of w j] obtain v n where
      m: "mutate_at_pos x w j (int k) g = Some (Inr (v, rng_drop n g))" by blast
    from mutate_at_pos_Inr [OF m] m
    show "\<exists>v g' r1 r2 r3. mutate_at_pos x w j (int k) g = Some (Inr (v, g'))
               \<and> pick_rand_idx j (int (length x)) g = Some (Inr ((r1, r2, r3), g'))
               \<and> v = x ! nat r1 ! k + w * (x ! nat r2 ! k - x ! nat r3 ! k)"
      by blast
  qed
next
  show "\<forall>x w j k g v g'. mutate_at_pos x w j (int k) g = Some (Inr (v, g')) \<longrightarrow>
            (\<exists>r1 r2 r3. pick_rand_idx j (int (length x)) g = Some (Inr ((r1, r2, r3), g'))
               \<and> v = x ! nat r1 ! k + w * (x ! nat r2 ! k - x ! nat r3 ! k))"
    using mutate_at_pos_Inr by blast
qed

lemma crossover_example:
  "crossover_loop 1 1 0 0 [0, 0] [0..<nat 2]
     (de_state_of [[1, 10], [2, 20], [3, 30], [4, 40]] (zeros 4 2) (zeros 4 2) X0
        (rng_cycle [1, 2, 3, 3, 1, 2, 0]))
   = Some (Inr (de_state_of [[1, 10], [2, 20], [3, 30], [4, 40]] [[1, 30], [0, 0], [0, 0], [0, 0]]
        (zeros 4 2) X0 (rng_cycle [0, 1, 2, 3, 3, 1, 2])))"
  "pick_rand_idx 0 4 (rng_cycle [1, 2, 3, 3, 1, 2, 0])
     = Some (Inr ((1, 2, 3), rng_cycle [3, 1, 2, 0, 1, 2, 3]))"
  "pick_rand_idx 0 4 (rng_cycle [3, 1, 2, 0, 1, 2, 3])
     = Some (Inr ((3, 1, 2), rng_cycle [0, 1, 2, 3, 3, 1, 2]))"
  "mutate_at_pos [[1 / 2], [3 / 4], [1 / 4], [0]] 1 2 (int 0) (rng_cycle [1, 0, 3, 2])
     = Some (Inr (5 / 4, rng_cycle [2, 1, 0, 3]))"
  by (simp_all add: run_simps del: samples.simps(2))

theorem mutation_redrawn_per_dimension_witness:
  "de_wf 4 2 (de_state_of [[1, 10], [2, 20], [3, 30], [4, 40]] (zeros 4 2) (zeros 4 2) X0
        (rng_cycle [1, 2, 3, 3, 1, 2, 0]))
   \<and> (0::nat) < nat 4 \<and> (4::int) \<le> 4
   \<and> fair 4 (rng_cycle [1, 2, 3, 3, 1, 2, 0])
   \<and> crossover_loop 1 1 0 0 [0, 0] [0..<nat 2]
       (de_state_of [[1, 10], [2, 20], [3, 30], [4, 40]] (zeros 4 2) (zeros 4 2) X0
          (rng_cycle [1, 2, 3, 3, 1, 2, 0]))
     = Some (Inr (de_state_of [[1, 10], [2, 20], [3, 30], [4, 40]] [[1, 30], [0, 0], [0, 0], [0, 0]]
          (zeros 4 2) X0 (rng_cycle [0, 1, 2, 3, 3, 1, 2])))
   \<and> pick_rand_idx 0 4 (rng_cycle [1, 2, 3, 3, 1, 2, 0])
       = Some (Inr ((1, 2, 3), rng_cycle [3, 1, 2, 0, 1, 2, 3]))
   \<and> pick_rand_idx 0 4 (rng_cycle [3, 1, 2, 0, 1, 2, 3])
       = Some (Inr ((3, 1, 2), rng_cycle [0, 1, 2, 3, 3, 1, 2]))
   \<and> (4::nat) \<le> length [[1 / 2 :: real], [3 / 4], [1 / 4], [0]]
   \<and> fair (int (length [[1 / 2 :: real], [3 / 4], [1 / 4], [0]])) (rng_cycle [1, 0, 3, 2])
   \<and> mutate_at_pos [[1 / 2], [3 / 4], [1 / 4], [0]] 1 2 (int 0) (rng_cycle [1, 0, 3, 2])
       = Some (Inr (5 / 4, rng_cycle [2, 1, 0, 3]))
   \<and> (\<exists>r1 r2 r3. pick_rand_idx 2 (int (length [[1 / 2 :: real], [3 / 4], [1 / 4], [0]]))
           (rng_cycle [1, 0, 3, 2]) = Some (Inr ((r1, r2, r3), rng_cycle [2, 1, 0, 3]))
         \<and> (5 / 4 :: real) = [[1 / 2], [3 / 4], [1 / 4], [0]] ! nat r1 ! 0
              + 1 * ([[1 / 2], [3 / 4], [1 / 4], [0]] ! nat r2 ! 0 - [[1 / 2], [3 / 4], [1 / 4], [0]] ! nat r3 ! 0))"
proof -
  have h: "(0::nat) < nat 4" "(4::int) \<le> 4" by simp_all
  have f: "fair (int (length [[1 / 2 :: real], [3 / 4], [1 / 4], [0]])) (rng_cycle [1, 0, 3, 2])"
    using fair_cycle_examples(3) by simp
  have f4: "fair 4 (rnd (de_state_of [[1, 10], [2, 20], [3, 30], [4, 40]] (zeros 4 2) (zeros 4 2) X0
        (rng_cycle [1, 2, 3, 3, 1, 2, 0])))"
    using fair_cycle_examples(2) by simp
  note t = mutation_redrawn_per_dimension [OF de_wf_examples h f4, of 1 1 0 "[0, 0]"]
  from t [THEN conjunct2, THEN conjunct2] crossover_example(4) have
    "\<exists>r1 r2 r3. pick_rand_idx 2 (int (length [[1 / 2 :: real], [3 / 4], [1 / 4], [0]]))
           (rng_cycle [1, 0, 3, 2]) = Some (Inr ((r1, r2, r3), rng_cycle [2, 1, 0, 3]))
         \<and> (5 / 4 :: real) = [[1 / 2], [3 / 4], [1 / 4], [0]] ! nat r1 ! 0
              + 1 * ([[1 / 2], [3 / 4], [1 / 4], [0]] ! nat r2 ! 0 - [[1 / 2], [3 / 4], [1 / 4], [0]] ! nat r3 ! 0)"
    by blast
  moreover have "(4::nat) \<le> length [[1 / 2 :: real], [3 / 4], [1 / 4], [0]]" by simp
  ultimately show ?thesis
    using de_wf_examples h fair_cycle_examples(2) f crossover_example by blast
qed

subsection \<open>The run as a whole\<close>

lemma gen_loop_iterate:
  "gen_loop f CR F NP d max_gen n_gen s
     = iterate_res (nat (max_gen - n_gen)) (generation f CR F NP d) s"
proof (induction "nat (max_gen - n_gen)" arbitrary: n_gen s)
  case 0
  then have "\<not> n_gen < max_gen" by simp
  with 0 show ?case by simp
next
  case (Suc k)
  then have lt: "n_gen < max_gen" and k: "k = nat (max_gen - (n_gen + 1))" by simp_all
  from Suc.hyps(1) [OF k] have
    "gen_loop f CR F NP d max_gen (n_gen + 1) = iterate_res k (generation f CR F NP d)"
    unfolding k by (intro ext) simp
  with lt Suc.hyps(2) [symmetric] show ?case by simp
qed

lemma iterate_res_returns:
  assumes "de_wf NP d s" and "4 \<le> NP" and "0 < d" and "fair NP (rnd s)"
  shows "\<exists>s'. iterate_res n (generation f CR F NP d) s = Some (Inr s') \<and> de_wf NP d s'"
  using assms(1,4)
proof (induction n arbitrary: s)
  case 0
  then show ?case by (simp add: ok_def)
next
  case (Suc n)
  from generation_returns [OF Suc.prems(1) assms(2,3) Suc.prems(2), of f CR F] obtain s1 where
    g: "generation f CR F NP d s = Some (Inr s1)" "de_wf NP d s1" "fair NP (rnd s1)" by blast
  from Suc.IH [OF g(2,3)] g(1) show ?case by simp
qed

lemma iterate_res_wf:
  assumes "iterate_res n (generation f CR F NP d) s = Some (Inr s')" and "de_wf NP d s"
  shows "de_wf NP d s'"
  using assms
proof (induction n arbitrary: s)
  case 0
  then show ?case by (simp add: ok_def)
next
  case (Suc n)
  from Suc.prems(1) obtain s1 where
    g: "generation f CR F NP d s = Some (Inr s1)" and
    r: "iterate_res n (generation f CR F NP d) s1 = Some (Inr s')"
    by (auto simp: bind_res_eq_ok)
  from generation_wf [OF g Suc.prems(2)] Suc.IH [OF r] show ?case by blast
qed

lemma argmin_scan_first_min:
  assumes "length ps = j" and "bj < j" and "ps ! bj = b"
    and "\<forall>k < j. b \<le> ps ! k" and "\<forall>k < bj. b < ps ! k"
  shows "argmin_scan ys j bj b < length (ps @ ys)
         \<and> (\<forall>k < length (ps @ ys). (ps @ ys) ! argmin_scan ys j bj b \<le> (ps @ ys) ! k)
         \<and> (\<forall>k < argmin_scan ys j bj b. (ps @ ys) ! argmin_scan ys j bj b < (ps @ ys) ! k)"
  using assms
proof (induction ys arbitrary: ps j bj b)
  case Nil
  then show ?case by simp
next
  case (Cons y ys)
  show ?case
  proof (cases "y < b")
    case True
    have "argmin_scan ys (Suc j) j y < length ((ps @ [y]) @ ys)
         \<and> (\<forall>k < length ((ps @ [y]) @ ys). ((ps @ [y]) @ ys) ! argmin_scan ys (Suc j) j y \<le> ((ps @ [y]) @ ys) ! k)
         \<and> (\<forall>k < argmin_scan ys (Suc j) j y. ((ps @ [y]) @ ys) ! argmin_scan ys (Suc j) j y < ((ps @ [y]) @ ys) ! k)"
    proof (rule Cons.IH)
      show "length (ps @ [y]) = Suc j" using Cons.prems(1) by simp
      show "j < Suc j" by simp
      show "(ps @ [y]) ! j = y" using Cons.prems(1) by (simp add: nth_append)
      show "\<forall>k < Suc j. y \<le> (ps @ [y]) ! k"
        using Cons.prems(1,4) True by (auto simp: nth_append less_Suc_eq)
      show "\<forall>k < j. y < (ps @ [y]) ! k"
        using Cons.prems(1,4) True by (auto simp: nth_append)
    qed
    with True show ?thesis by simp
  next
    case False
    have "argmin_scan ys (Suc j) bj b < length ((ps @ [y]) @ ys)
         \<and> (\<forall>k < length ((ps @ [y]) @ ys). ((ps @ [y]) @ ys) ! argmin_scan ys (Suc j) bj b \<le> ((ps @ [y]) @ ys) ! k)
         \<and> (\<forall>k < argmin_scan ys (Suc j) bj b. ((ps @ [y]) @ ys) ! argmin_scan ys (Suc j) bj b < ((ps @ [y]) @ ys) ! k)"
    proof (rule Cons.IH)
      show "length (ps @ [y]) = Suc j" using Cons.prems(1) by simp
      show "bj < Suc j" using Cons.prems(2) by simp
      show "(ps @ [y]) ! bj = b" using Cons.prems(1,2,3) by (simp add: nth_append)
      show "\<forall>k < Suc j. b \<le> (ps @ [y]) ! k"
        using Cons.prems(1,4) False by (auto simp: nth_append less_Suc_eq)
      show "\<forall>k < bj. b < (ps @ [y]) ! k"
        using Cons.prems(1,2,5) by (auto simp: nth_append)
    qed
    with False show ?thesis by simp
  qed
qed

lemma argmin_first_min:
  assumes "argmin ys = Inr j"
  shows "j < length ys \<and> (\<forall>k < length ys. ys ! j \<le> ys ! k) \<and> (\<forall>k < j. ys ! j < ys ! k)"
proof (cases ys)
  case Nil
  with assms show ?thesis by (simp add: argmin_def)
next
  case (Cons y ys')
  with assms have j: "j = argmin_scan ys' 1 0 y" by (simp add: argmin_def)
  from argmin_scan_first_min [of "[y]" 1 0 y ys'] show ?thesis
    unfolding j Cons by simp
qed

lemma best_member_first_min:
  assumes "best_member f pop = Inr v"
  shows "\<exists>j < length pop. v = pop ! j \<and> (\<forall>k < length pop. f v \<le> f (pop ! k))
           \<and> (\<forall>k < j. f v < f (pop ! k))"
proof -
  from assms obtain j where j: "argmin (map f pop) = Inr j" and v: "v = pop ! j"
    by (auto simp: best_member_def split: sum.splits)
  from argmin_first_min [OF j] v show ?thesis by (intro exI [of _ j]) auto
qed

lemma best_member_returns: "pop \<noteq> [] \<Longrightarrow> \<exists>v. best_member f pop = Inr v"
  by (cases pop) (simp_all add: best_member_def argmin_def)

lemma de_init_wf:
  assumes "init_population_star NP d ob g = Inr (x0, g')"
  shows "de_wf NP d (de_init NP d x0 g')"
  using init_population_star_Inr [OF assms]
  by (simp add: de_wf_def de_init_def shaped_def zeros_def)

lemma differential_evolution_unfold:
  "differential_evolution NP f CR F max_gen d obj_bounds g =
     bind_res (Some (init_population_star NP d obj_bounds g)) (\<lambda>(x0, g').
     bind_res (iterate_res (nat max_gen) (generation f CR F NP d) (de_init NP d x0 g')) (\<lambda>s.
     Some (best_member f (arrays s (x_ref s)))))"
  by (simp only: differential_evolution_def gen_loop_iterate diff_zero)

lemma differential_evolution_returns:
  assumes "4 \<le> NP" and "0 < d" and "length obj_bounds \<le> 2" and "fair NP g"
  shows "\<exists>v. differential_evolution NP f CR F max_gen d obj_bounds g = Some (Inr v)"
proof -
  from assms init_population_star_ok_iff [of NP d obj_bounds g] obtain x0 g' where
    ip: "init_population_star NP d obj_bounds g = Inr (x0, g')" by force
  from init_population_star_Inr [OF ip] assms(4) have fg: "fair NP (rnd (de_init NP d x0 g'))"
    by (simp add: de_init_def fair_drop)
  from iterate_res_returns [OF de_init_wf [OF ip] assms(1,2) fg, of "nat max_gen" f CR F]
  obtain s where
    it: "iterate_res (nat max_gen) (generation f CR F NP d) (de_init NP d x0 g') = Some (Inr s)"
    and wf: "de_wf NP d s" by blast
  from de_wf_x [OF wf] assms(1) have "arrays s (x_ref s) \<noteq> []" by (auto simp: shaped_def)
  from best_member_returns [OF this, of f] obtain v where "best_member f (arrays s (x_ref s)) = Inr v"
    by blast
  with ip it show ?thesis by (simp add: differential_evolution_unfold)
qed

lemma differential_evolution_no_generation:
  assumes "max_gen \<le> 0" and "0 < NP" and "init_population_star NP d obj_bounds g = Inr (x0, g')"
  shows "\<exists>v \<in> set x0. differential_evolution NP f CR F max_gen d obj_bounds g = Some (Inr v)
           \<and> best_member f x0 = Inr v"
proof -
  from init_population_star_Inr [OF assms(3)] assms(2) have "x0 \<noteq> []" by auto
  from best_member_returns [OF this, of f] obtain v where v: "best_member f x0 = Inr v" by blast
  from best_member_first_min [OF v] have "v \<in> set x0" by auto
  moreover from assms(1,3) v have
    "differential_evolution NP f CR F max_gen d obj_bounds g = Some (Inr v)"
    by (simp add: differential_evolution_unfold de_init_def ok_def)
  ultimately show ?thesis using v by blast
qed

text \<open>
  Claim C7. \<open>differential_evolution\<close> is the initialisation, followed by exactly
  \<open>max_gen\<close> passes of the generation step, followed by the choice of the best member;
  the best member has least fitness in the final population and is the first such member.
  For \<open>NP \<ge> 4\<close> and \<open>d > 0\<close> the run returns on every fair generator, and for
  \<open>max_gen = 0\<close> it returns a member of the initial population.
\<close>

theorem differential_evolution_result:
  "differential_evolution NP f CR F max_gen d obj_bounds g =
     bind_res (Some (init_population_star NP d obj_bounds g)) (\<lambda>(x0, g').
     bind_res (iterate_res (nat max_gen) (generation f CR F NP d) (de_init NP d x0 g')) (\<lambda>s.
     Some (best_member f (arrays s (x_ref s)))))
   \<and> (\<forall>pop v. best_member f pop = Inr v \<longrightarrow>
         (\<exists>j < length pop. v = pop ! j \<and> (\<forall>k < length pop. f v \<le> f (pop ! k))
            \<and> (\<forall>k < j. f v < f (pop ! k))))
   \<and> (4 \<le> NP \<and> 0 < d \<and> length obj_bounds \<le> 2 \<and> fair NP g \<longrightarrow>
         (\<exists>v. differential_evolution NP f CR F max_gen d obj_bounds g = Some (Inr v)))
   \<and> (\<forall>x0 g'. max_gen = 0 \<and> 0 < NP \<and> init_population_star NP d obj_bounds g = Inr (x0, g') \<longrightarrow>
         (\<exists>v \<in> set x0. differential_evolution NP f CR F max_gen d obj_bounds g = Some (Inr v)
            \<and> best_member f x0 = Inr v))"
  using differential_evolution_unfold [of NP f CR F max_gen d obj_bounds g]
    best_member_first_min [of f]
    differential_evolution_returns [of NP d obj_bounds g f CR F max_gen]
    differential_evolution_no_generation [of max_gen NP d obj_bounds g _ _ f CR F]
  by (intro conjI allI impI) (blast | simp)+

lemma de_state_of_copy [simp]:
  "(de_state_of a b c r g)\<lparr>arrays := (arrays (de_state_of a b c r g))(X0 := a')\<rparr>
     = de_state_of a' b c r g"
  by (auto simp: de_state_of_def fun_eq_iff split: ref.splits)

lemma iterate_res_numeral:
  "iterate_res (numeral k) step s = bind_res (step s) (iterate_res (pred_numeral k) step)"
  by (simp add: numeral_eq_Suc)

lemmas init_simps = init_population_star_def init_population_def np_rand_def
  sample_rows_numeral sample_rows_Suc_eval samples_numeral samples_Suc_eval

lemma de_run_example:
  "differential_evolution 4 hd (9 / 10) 1 2 1 [0, 16]
     (rng_of [4503599627370496, 2251799813685248, 1125899906842624, 562949953421312,
              0, 0, 3, 2, 1,  0, 0, 3, 2, 0,  0, 0, 3, 0, 1,  0, 0, 0, 1, 2,
              0, 0, 1, 2, 3,  0, 0, 0, 2, 3,  0, 0, 0, 1, 3,  0, 0, 0, 1, 2])
   = Some (Inr [- 10])"
  by (simp add: differential_evolution_def init_simps generation_def de_init_eq best_member_def
      argmin_def run_simps del: samples.simps(2) sample_rows.simps(2))

lemma de_spec_example:
  "differential_evolution_spec 4 hd (9 / 10) 1 2 1 [0, 16]
     (rng_of [4503599627370496, 2251799813685248, 1125899906842624, 562949953421312,
              0, 0, 3, 2, 1,  0, 0, 3, 2, 0,  0, 0, 3, 0, 1,  0, 0, 0, 1, 2,
              0, 0, 1, 2, 3,  0, 0, 0, 2, 3,  0, 0, 0, 1, 3,  0, 0, 0, 1, 2])
   = Some (Inr [- 8])"
  by (simp add: differential_evolution_spec_def init_simps generation_spec_def de_init_eq
      best_member_def argmin_def run_simps iterate_res_numeral
      del: samples.simps(2) sample_rows.simps(2))

lemma de_no_generation_example:
  "init_population_star 4 1 [0, 16]
     (rng_of [4503599627370496, 2251799813685248, 1125899906842624, 562949953421312])
     = Inr ([[8], [4], [2], [1]], rng_of [])"
  "differential_evolution 4 hd (9 / 10) 1 0 1 [0, 16]
     (rng_of [4503599627370496, 2251799813685248, 1125899906842624, 562949953421312])
     = Some (Inr [1])"
  by (simp_all add: differential_evolution_def init_simps de_init_def best_member_def argmin_def
        ok_def del: samples.simps(2) sample_rows.simps(2))

theorem differential_evolution_result_witness:
  "fair 4 (\<lambda>n. n)
   \<and> (\<exists>v. differential_evolution 4 hd (9 / 10) 1 2 1 [0, 16] (\<lambda>n. n) = Some (Inr v))
   \<and> init_population_star 4 1 [0, 16]
       (rng_of [4503599627370496, 2251799813685248, 1125899906842624, 562949953421312])
       = Inr ([[8], [4], [2], [1]], rng_of [])
   \<and> differential_evolution 4 hd (9 / 10) 1 0 1 [0, 16]
       (rng_of [4503599627370496, 2251799813685248, 1125899906842624, 562949953421312])
       = Some (Inr [1])
   \<and> best_member hd [[8], [4], [2], [1]] = Inr [1]
   \<and> differential_evolution 4 hd (9 / 10) 1 2 1 [0, 16]
     (rng_of [4503599627370496, 2251799813685248, 1125899906842624, 562949953421312,
              0, 0, 3, 2, 1,  0, 0, 3, 2, 0,  0, 0, 3, 0, 1,  0, 0, 0, 1, 2,
              0, 0, 1, 2, 3,  0, 0, 0, 2, 3,  0, 0, 0, 1, 3,  0, 0, 0, 1, 2])
     = Some (Inr [- 10])"
proof -
  have f: "fair 4 (\<lambda>n. n)" by (rule fair_id) simp
  note t1 = differential_evolution_result [of 4 hd "9 / 10" 1 2 1 "[0, 16]" "\<lambda>n. n"]
  note t2 = differential_evolution_result [of 4 hd "9 / 10" 1 0 1 "[0, 16]"
      "rng_of [4503599627370496, 2251799813685248, 1125899906842624, 562949953421312]"]
  from t1 [THEN conjunct2, THEN conjunct2, THEN conjunct1] f
  have a: "\<exists>v. differential_evolution 4 hd (9 / 10) 1 2 1 [0, 16] (\<lambda>n. n) = Some (Inr v)"
    by simp
  from t2 [THEN conjunct2, THEN conjunct2, THEN conjunct2] de_no_generation_example
  have b: "best_member hd [[8], [4], [2], [1]] = Inr [1]"
    by auto
  from f a b de_no_generation_example de_run_example show ?thesis by blast
qed

subsection \<open>Generations are not synchronous\<close>

lemma generation_aliases:
  "generation f CR F NP d s = Some (Inr s') \<Longrightarrow> x_ref s' = XG"
  by (auto dest: generation_Inr)

lemma first_generation_agrees:
  assumes "generation f CR F NP d s = Some (Inr s')" and "x_ref s = X0"
    and "\<forall>i < nat NP. i < length (arrays s U)"
  shows "\<exists>s''. generation_spec f CR F NP d s = Some (Inr s'')
           \<and> arrays s'' (x_ref s'') = arrays s' (x_ref s')"
proof -
  from generation_Inr [OF assms(1)] obtain s1 where
    m: "member_loop f CR F d [0..<nat NP] s = Some (Inr s1)" and s': "s' = s1\<lparr>x_ref := XG\<rparr>"
    by blast
  from assms(2,3) have "x_ref s \<noteq> U" "\<forall>i \<in> set [0..<nat NP]. i < length (arrays s U)" by simp_all
  from member_loop_frame [OF m this] assms(2) have "x_ref s1 = X0" by simp
  with m s' show ?thesis by (simp add: generation_spec_def ok_def)
qed

text \<open>
  Claim C1 fails on the code. After the first generation \<open>x\<close> and \<open>x_g\<close> are one
  array (\<open>generation_aliases\<close>), so a member written earlier in a sweep is read as a
  donor later in the same sweep. In the run below member \<open>0\<close> becomes \<open>-4\<close> in the
  second generation, and the trial vector of member \<open>2\<close>, with donors \<open>(0, 1, 3)\<close>, is
  \<open>-4 + (-5 - 1) = -10\<close>; from the previous generation \<open>-1, -5, 2, 1\<close> it would be
  \<open>-1 + (-5 - 1) = -7\<close>. The code returns \<open>[-10]\<close>, the synchronous generation of the
  specification \<open>[-8]\<close>.
\<close>

theorem second_generation_reads_updated_members:
  "differential_evolution 4 hd (9 / 10) 1 2 1 [0, 16]
     (rng_of [4503599627370496, 2251799813685248, 1125899906842624, 562949953421312,
              0, 0, 3, 2, 1,  0, 0, 3, 2, 0,  0, 0, 3, 0, 1,  0, 0, 0, 1, 2,
              0, 0, 1, 2, 3,  0, 0, 0, 2, 3,  0, 0, 0, 1, 3,  0, 0, 0, 1, 2])
     = Some (Inr [- 10])
   \<and> differential_evolution_spec 4 hd (9 / 10) 1 2 1 [0, 16]
     (rng_of [4503599627370496, 2251799813685248, 1125899906842624, 562949953421312,
              0, 0, 3, 2, 1,  0, 0, 3, 2, 0,  0, 0, 3, 0, 1,  0, 0, 0, 1, 2,
              0, 0, 1, 2, 3,  0, 0, 0, 2, 3,  0, 0, 0, 1, 3,  0, 0, 0, 1, 2])
     = Some (Inr [- 8])
   \<and> generation hd (9 / 10) 1 4 1
     (de_state_of [[8], [4], [2], [1]] [[- 1], [- 5], [5], [10]] [[- 1], [- 5], [2], [1]] XG
        (rng_of [0, 0, 1, 2, 3,  0, 0, 0, 2, 3,  0, 0, 0, 1, 3,  0, 0, 0, 1, 2]))
     = Some (Inr (de_state_of [[8], [4], [2], [1]] [[- 4], [- 3], [- 10], [1]]
        [[- 4], [- 5], [- 10], [1]] XG (rng_of [])))
   \<and> generation_spec hd (9 / 10) 1 4 1
     (de_state_of [[- 1], [- 5], [2], [1]] [[- 1], [- 5], [5], [10]] [[- 1], [- 5], [2], [1]] X0
        (rng_of [0, 0, 1, 2, 3,  0, 0, 0, 2, 3,  0, 0, 0, 1, 3,  0, 0, 0, 1, 2]))
     = Some (Inr (de_state_of [[- 4], [- 5], [- 7], [- 8]] [[- 4], [0], [- 7], [- 8]]
        [[- 4], [- 5], [- 7], [- 8]] X0 (rng_of [])))"
proof -
  have "generation_spec hd (9 / 10) 1 4 1
     (de_state_of [[- 1], [- 5], [2], [1]] [[- 1], [- 5], [5], [10]] [[- 1], [- 5], [2], [1]] X0
        (rng_of [0, 0, 1, 2, 3,  0, 0, 0, 2, 3,  0, 0, 0, 1, 3,  0, 0, 0, 1, 2]))
     = Some (Inr (de_state_of [[- 4], [- 5], [- 7], [- 8]] [[- 4], [0], [- 7], [- 8]]
        [[- 4], [- 5], [- 7], [- 8]] X0 (rng_of [])))"
    by (simp add: generation_spec_def run_simps del: samples.simps(2))
  with de_run_example de_spec_example generation_example show ?thesis by blast
qed

subsection \<open>Parameter validation\<close>









end
